theory Spec2Isabelle
  imports Complex_Main
begin

section \<open>Data model of the host document\<close>

text \<open>
  The plugin (\<^verbatim>\<open>src/code.ts\<close>) works on scene nodes owned by the host. A node reference is
  modelled as a natural number, the document as a store from references to node records.
  JavaScript numbers are modelled as (finite) real numbers with exact arithmetic; strings
  as lists of characters, of which only the length and concatenation are used.
\<close>

datatype node_type = INSTANCE | TEXT | FRAME | GROUP | RECTANGLE | VECTOR

text \<open>
  A paint \<^verbatim>\<open>{type: "SOLID", color: {r, g, b}, opacity}\<close> is \<open>SOLID (RGB r g b) opacity\<close>; a
  paint of another type is given by its type tag.
\<close>

datatype rgb = RGB real real real

datatype paint = SOLID rgb real | NON_SOLID string

text \<open>
  A fills property is either an array of paints or a value that is not an array
  (\<^verbatim>\<open>figma.mixed\<close>, or a missing value on a segment).
\<close>

datatype fills = Mixed | Paints "paint list"

text \<open>\<^verbatim>\<open>fontSize\<close> is a number or \<^verbatim>\<open>figma.mixed\<close>.\<close>

datatype font_size = SizeNum real | SizeMixed

text \<open>
  \<open>node_x\<close> and \<open>node_y\<close> are the fields \<^verbatim>\<open>x\<close> and \<^verbatim>\<open>y\<close>, \<open>ntype\<close> is \<^verbatim>\<open>type\<close>.
  \<open>children\<close> is \<open>None\<close> for a node without a \<^verbatim>\<open>children\<close> property. \<open>segments\<close> is what
  \<^verbatim>\<open>getStyledTextSegments(["fills"])\<close> returns, each segment given by its fills.
  \<open>fontAvailable\<close> tells whether \<^verbatim>\<open>figma.loadFontAsync(fontName)\<close> resolves for the node.
\<close>

record node =
  ntype :: node_type
  name :: string
  node_x :: real
  node_y :: real
  width :: real
  height :: real
  parent :: "nat option"
  children :: "nat list option"
  fills :: fills
  opacity :: real
  cornerRadius :: real
  characters :: string
  fontSize :: font_size
  segments :: "fills list"
  fontAvailable :: bool

datatype error = FontLoadError | TypeError | InsertError

section \<open>Configuration\<close>

definition defaultCornerRadius :: real where
  "defaultCornerRadius = 4"

definition defaultOpacity :: real where
  "defaultOpacity = 0.2"

definition minOpacity :: real where
  "minOpacity = 0.1"

definition maxOpacity :: real where
  "maxOpacity = 0.4"

section \<open>Colour extraction\<close>

text \<open>
  The loop over the segments of \<^verbatim>\<open>getTextColor\<close>: the fills of the first segment whose
  fills are an array of length greater than zero.
\<close>

fun scanSegments :: "fills list \<Rightarrow> paint list option" where
  "scanSegments [] = None"
| "scanSegments (Mixed # segs) = scanSegments segs"
| "scanSegments (Paints ps # segs) = (if length ps > 0 then Some ps else scanSegments segs)"

definition defaultFill :: "paint list" where
  "defaultFill = [SOLID (RGB 0 0 0) 1]"

definition getTextColor :: "node \<Rightarrow> error + paint list" where
  "getTextColor textNode =
     (if \<not> fontAvailable textNode then Inl FontLoadError
      else
        (case (if length (segments textNode) > 1 then scanSegments (segments textNode) else None) of
           Some ps \<Rightarrow> Inr ps
         | None \<Rightarrow>
             Inr (case fills textNode of
                    Paints ps \<Rightarrow> if length ps > 0 then ps else defaultFill
                  | Mixed \<Rightarrow> defaultFill)))"

section \<open>Opacity\<close>

definition calculateOpacity :: "node \<Rightarrow> real" where
  "calculateOpacity textNode =
     (let baseOpacity = defaultOpacity;
          textLength = length (characters textNode);
          fontSize = (case fontSize textNode of SizeNum f \<Rightarrow> f | SizeMixed \<Rightarrow> 14);
          opacity = baseOpacity;
          opacity = opacity * min 1 (max 0.5 (fontSize / 24));
          opacity = opacity * min 1 (max 0.7 (real textLength / 50))
      in min (max opacity minOpacity) maxOpacity)"

text \<open>The reference formula of the specification, written from its words.\<close>

definition clamp :: "real \<Rightarrow> real \<Rightarrow> real \<Rightarrow> real" where
  "clamp v lo hi = (if v < lo then lo else if hi < v then hi else v)"

definition opacity_spec :: "font_size \<Rightarrow> nat \<Rightarrow> real" where
  "opacity_spec fs characterCount =
     (let base = 0.2;
          sizeFactor = clamp ((case fs of SizeNum f \<Rightarrow> f | SizeMixed \<Rightarrow> 14) / 24) 0.5 1.0;
          lengthFactor = clamp (real characterCount / 50) 0.7 1.0
      in clamp (base * sizeFactor * lengthFactor) 0.1 0.4)"

section \<open>The host document and its operations\<close>

text \<open>
  The state of a run: the store of node records, the next unused reference, the current
  selection, the lines written with \<^verbatim>\<open>console.error\<close> (message and error), the messages
  shown with \<^verbatim>\<open>figma.notify\<close>, and whether \<^verbatim>\<open>figma.closePlugin\<close> was called.
\<close>

record state =
  nodes :: "nat \<Rightarrow> node"
  next_id :: nat
  selection :: "nat list"
  console :: "(string \<times> error) list"
  notifications :: "string list"
  closed :: bool

text \<open>An error that was thrown, with the state of the document at the throw.\<close>

type_synonym thrown = "error \<times> state"

definition modify :: "state \<Rightarrow> nat \<Rightarrow> (node \<Rightarrow> node) \<Rightarrow> state" where
  "modify st i f = st\<lparr>nodes := (nodes st)(i := f (nodes st i))\<rparr>"

text \<open>\<^verbatim>\<open>Array.prototype.indexOf\<close>: the first index of the value, or \<open>-1\<close>.\<close>

fun indexOf :: "nat list \<Rightarrow> nat \<Rightarrow> int" where
  "indexOf [] v = - 1"
| "indexOf (a # as) v =
     (if a = v then 0 else (let i = indexOf as v in if i < 0 then - 1 else i + 1))"

text \<open>Reading \<^verbatim>\<open>array[index]\<close>: \<open>None\<close> is \<^verbatim>\<open>undefined\<close>.\<close>

definition elemAt :: "'a list \<Rightarrow> int \<Rightarrow> 'a option" where
  "elemAt xs i = (if 0 \<le> i \<and> i < int (length xs) then Some (xs ! nat i) else None)"

text \<open>
  Modelled from the spec: the host capability "create a rectangle node". The new node gets
  an unused reference, has no parent and no children.
\<close>

definition newRectangle :: node where
  "newRectangle =
     \<lparr>ntype = RECTANGLE, name = ''Rectangle'', node_x = 0, node_y = 0, width = 100,
      height = 100, parent = None, children = None, fills = Paints [], opacity = 1,
      cornerRadius = 0, characters = [], fontSize = SizeMixed, segments = [],
      fontAvailable = True\<rparr>"

definition createRectangle :: "state \<Rightarrow> nat \<times> state" where
  "createRectangle st =
     (let g = next_id st
      in (g, st\<lparr>nodes := (nodes st)(g := newRectangle), next_id := Suc g\<rparr>))"

text \<open>Modelled from the spec: the host capability "resize it".\<close>

definition resize :: "state \<Rightarrow> nat \<Rightarrow> real \<Rightarrow> real \<Rightarrow> state" where
  "resize st i w h = modify st i (\<lambda>nd. nd\<lparr>width := w, height := h\<rparr>)"

text \<open>
  Modelled from the spec: the host capability "insert a node at a specific index within a
  parent's child sequence". The child leaves its former parent, if it has one. The call
  throws when the parent has no child sequence or the index is outside of it.
\<close>

definition insertChild :: "state \<Rightarrow> nat \<Rightarrow> int \<Rightarrow> nat \<Rightarrow> error + state" where
  "insertChild st p index child =
     (let st1 = (case parent (nodes st child) of
                   None \<Rightarrow> st
                 | Some q \<Rightarrow>
                     modify st q (\<lambda>nd. nd\<lparr>children := map_option (removeAll child) (children nd)\<rparr>))
      in case children (nodes st1 p) of
           None \<Rightarrow> Inl TypeError
         | Some cs \<Rightarrow>
             if index < 0 \<or> int (length cs) < index then Inl InsertError
             else Inr (modify
                        (modify st1 p
                          (\<lambda>nd. nd\<lparr>children := Some (take (nat index) cs @ [child] @ drop (nat index) cs)\<rparr>))
                        child (\<lambda>nd. nd\<lparr>parent := Some p\<rparr>)))"

text \<open>
  Modelled from the spec: the host capability "remove a node" from its parent's child
  sequence. A removed node has no parent.
\<close>

definition remove :: "state \<Rightarrow> nat \<Rightarrow> state" where
  "remove st n =
     (let st1 = (case parent (nodes st n) of
                   None \<Rightarrow> st
                 | Some p \<Rightarrow>
                     modify st p (\<lambda>nd. nd\<lparr>children := map_option (removeAll n) (children nd)\<rparr>))
      in modify st1 n (\<lambda>nd. nd\<lparr>parent := None\<rparr>))"

text \<open>
  Modelled from the spec: the host capability "detach an instance node into a plain
  container", which destroys the instance and puts, at the same index of the same parent, a
  new container node containing clones of the instance's former children. The container
  gets an unused reference and the attributes of the instance. For each former child, in
  their order, there is a clone: a new node with an unused reference and the attributes of
  that child, whose parent is the container; what was below the former child is below its
  clone. The instance and its former children are destroyed: they have no parent and no
  children any more.
\<close>

definition detachInstance :: "state \<Rightarrow> nat \<Rightarrow> state" where
  "detachInstance st n =
     (let f = next_id st;
          inst = nodes st n;
          kids = (case children inst of None \<Rightarrow> [] | Some cs \<Rightarrow> cs);
          clone = (\<lambda>c. f + 1 + nat (indexOf kids c))
      in st\<lparr>nodes :=
               (\<lambda>m. if m = f then
                      inst\<lparr>ntype := FRAME,
                           children := Some (map (\<lambda>j. f + 1 + j) [0..<length kids])\<rparr>
                    else if f < m \<and> m \<le> f + length kids then
                      (nodes st (kids ! (m - f - 1)))\<lparr>parent := Some f\<rparr>
                    else if m = n then inst\<lparr>parent := None, children := Some []\<rparr>
                    else if m \<in> set kids then
                      (nodes st m)\<lparr>parent := None,
                                   children := map_option (\<lambda>_. []) (children (nodes st m))\<rparr>
                    else if parent inst = Some m then
                      (nodes st m)\<lparr>children :=
                         map_option (map (\<lambda>c. if c = n then f else c)) (children (nodes st m))\<rparr>
                    else
                      (case parent (nodes st m) of
                         None \<Rightarrow> nodes st m
                       | Some c \<Rightarrow>
                           if c \<in> set kids then (nodes st m)\<lparr>parent := Some (clone c)\<rparr>
                           else nodes st m)),
             next_id := f + 1 + length kids\<rparr>)"

text \<open>Modelled from the spec: "emit a transient user-facing notification message".\<close>

definition notify :: "state \<Rightarrow> string \<Rightarrow> state" where
  "notify st msg = st\<lparr>notifications := notifications st @ [msg]\<rparr>"

text \<open>Modelled from the spec: "terminate the plugin session".\<close>

definition closePlugin :: "state \<Rightarrow> state" where
  "closePlugin st = st\<lparr>closed := True\<rparr>"

text \<open>\<^verbatim>\<open>console.error(message, error)\<close>.\<close>

definition console_error :: "state \<Rightarrow> string \<Rightarrow> error \<Rightarrow> state" where
  "console_error st msg e = st\<lparr>console := console st @ [(msg, e)]\<rparr>"

section \<open>The traversal\<close>

definition getChildren :: "node \<Rightarrow> nat list" where
  "getChildren nd = (case children nd of Some cs \<Rightarrow> cs | None \<Rightarrow> [])"

text \<open>
  The branch of \<^verbatim>\<open>processNode\<close> for a text node (\<^verbatim>\<open>if (node.type === "TEXT") { ... }\<close>), in
  the order of the source. It throws where a host call throws.
\<close>

definition convertText :: "state \<Rightarrow> nat \<Rightarrow> thrown + state" where
  "convertText st n =
     (let (ghostRect, st1) = createRectangle st;
          st2 = modify st1 ghostRect (\<lambda>nd. nd\<lparr>name := ''Ghost_'' @ name (nodes st1 n)\<rparr>);
          st3 = resize st2 ghostRect (width (nodes st2 n)) (height (nodes st2 n))
      in case getTextColor (nodes st3 n) of
           Inl e \<Rightarrow> Inl (e, st3)
         | Inr textColor \<Rightarrow>
            (let st4 = modify st3 ghostRect (\<lambda>nd. nd\<lparr>fills := Paints textColor\<rparr>);
                 st5 = modify st4 ghostRect (\<lambda>nd. nd\<lparr>opacity := calculateOpacity (nodes st4 n)\<rparr>);
                 st6 = modify st5 ghostRect (\<lambda>nd. nd\<lparr>node_x := node_x (nodes st5 n)\<rparr>);
                 st7 = modify st6 ghostRect (\<lambda>nd. nd\<lparr>node_y := node_y (nodes st6 n)\<rparr>);
                 st8 = modify st7 ghostRect (\<lambda>nd. nd\<lparr>cornerRadius := defaultCornerRadius\<rparr>)
             in case (case parent (nodes st8 n) of
                        None \<Rightarrow> Inr st8
                      | Some p \<Rightarrow>
                         (case children (nodes st8 p) of
                            None \<Rightarrow> Inl (TypeError, st8)
                          | Some cs \<Rightarrow>
                             (case insertChild st8 p (indexOf cs n) ghostRect of
                                Inl e \<Rightarrow> Inl (e, st8)
                              | Inr st9 \<Rightarrow> Inr st9))) of
                  Inl t \<Rightarrow> Inl t
                | Inr st9 \<Rightarrow> Inr (remove st9 n)))"

text \<open>
  The handler of \<^verbatim>\<open>processNode\<close>: \<^verbatim>\<open>catch (error) { console.error(..., error) }\<close>. It reads
  the name of the node and returns normally.
\<close>

definition errorMessage :: "string \<Rightarrow> string" where
  "errorMessage nm = ''Error processing node '' @ [CHR 0x22] @ nm @ [CHR 0x22] @ '':''"

definition catchError :: "nat \<Rightarrow> (thrown + state) option \<Rightarrow> (thrown + state) option" where
  "catchError n res =
     (case res of
        None \<Rightarrow> None
      | Some (Inl (e, st)) \<Rightarrow> Some (Inr (console_error st (errorMessage (name (nodes st n))) e))
      | Some (Inr st) \<Rightarrow> Some (Inr st))"

text \<open>
  \<^verbatim>\<open>processNode\<close>: \<open>tryBlock\<close> is the block under \<^verbatim>\<open>try\<close>, \<open>processAll\<close> the loop
  \<^verbatim>\<open>for (const child of children) await processNode(child)\<close>. The first argument bounds
  the depth of the recursion: \<open>None\<close> is a run that needs more depth; \<open>Some (Inl t)\<close> is a
  thrown error that reaches the caller; \<open>Some (Inr st)\<close> is a normal return with the
  document \<open>st\<close>.
\<close>

function processNode :: "nat \<Rightarrow> state \<Rightarrow> nat \<Rightarrow> (thrown + state) option"
  and tryBlock :: "nat \<Rightarrow> state \<Rightarrow> nat \<Rightarrow> (thrown + state) option"
  and processAll :: "nat \<Rightarrow> state \<Rightarrow> nat list \<Rightarrow> (thrown + state) option" where
  "processNode 0 st n = None"
| "processNode (Suc k) st n = catchError n (tryBlock k st n)"
| "tryBlock k st n =
     (case parent (nodes st n) of
        None \<Rightarrow> Some (Inr st)
      | Some p \<Rightarrow>
         if ntype (nodes st n) = INSTANCE then
           (case children (nodes st p) of
              None \<Rightarrow> Some (Inl (TypeError, st))
            | Some cs \<Rightarrow>
               (let index = indexOf cs n;
                    st1 = detachInstance st n
                in case children (nodes st1 p) of
                     None \<Rightarrow> Some (Inl (TypeError, st1))
                   | Some cs1 \<Rightarrow>
                      (case elemAt cs1 index of
                         None \<Rightarrow> Some (Inr st1)
                       | Some detachedFrame \<Rightarrow>
                           processAll k st1 (getChildren (nodes st1 detachedFrame)))))
         else if ntype (nodes st n) = TEXT then Some (convertText st n)
         else processAll k st (getChildren (nodes st n)))"
| "processAll k st [] = Some (Inr st)"
| "processAll k st (c # cs) =
     (case processNode k st c of
        None \<Rightarrow> None
      | Some (Inl t) \<Rightarrow> Some (Inl t)
      | Some (Inr st1) \<Rightarrow> processAll k st1 cs)"
  by pat_completeness auto
termination
  by (relation "inv_image (less_than <*lex*> less_than <*lex*> less_than)
       (\<lambda>x. case x of
          Inl (k, st, n) \<Rightarrow> (k, 0, 0)
        | Inr (Inl (k, st, n)) \<Rightarrow> (k, 2, 0)
        | Inr (Inr (k, st, cs)) \<Rightarrow> (k, 1, length cs))") auto

section \<open>Main execution\<close>

definition successMessage :: string where
  "successMessage =
     ''Successfully converted text to ghost frames! '' @ [CHR 0xF0, CHR 0x9F, CHR 0x91, CHR 0xBB]"

text \<open>
  The body of the program. \<^verbatim>\<open>finally { figma.closePlugin() }\<close> runs on every path, also
  after the \<^verbatim>\<open>return\<close> of the empty selection.
\<close>

definition main :: "nat \<Rightarrow> state \<Rightarrow> state option" where
  "main fuel st =
     (let selection = selection st
      in if length selection = 0 then
           Some (closePlugin (closePlugin (notify st ''Please select at least one frame or element'')))
         else
           (case processAll fuel st selection of
              None \<Rightarrow> None
            | Some (Inr st1) \<Rightarrow> Some (closePlugin (notify st1 successMessage))
            | Some (Inl (e, st1)) \<Rightarrow>
                Some (closePlugin
                       (notify (console_error st1 ''Plugin error:'' e)
                          ''An error occurred while processing''))))"

section \<open>Auxiliary notions for the statements\<close>

text \<open>The two factors of \<^verbatim>\<open>calculateOpacity\<close>, as the source computes them.\<close>

definition sizeFactor :: "node \<Rightarrow> real" where
  "sizeFactor nd =
     min 1 (max 0.5 ((case fontSize nd of SizeNum f \<Rightarrow> f | SizeMixed \<Rightarrow> 14) / 24))"

definition lengthFactor :: "node \<Rightarrow> real" where
  "lengthFactor nd = min 1 (max 0.7 (real (length (characters nd)) / 50))"

text \<open>A fills value that is an array with at least one paint.\<close>

definition nonEmptyArray :: "fills \<Rightarrow> bool" where
  "nonEmptyArray f = (case f of Paints ps \<Rightarrow> ps \<noteq> [] | Mixed \<Rightarrow> False)"

text \<open>
  A well-formed document, with a ranking \<open>rk\<close> of the nodes that bounds the depth of every
  subtree: among the nodes in use (the references below \<open>next_id\<close>), the children of a node
  are distinct nodes in use, of smaller rank, whose parent is that node; and the parent of a
  node is a node in use that has it among its children. This is the invariant of the data
  model: the parent-child link is consistent, and the tree is acyclic.
\<close>

definition wellFormed :: "(nat \<Rightarrow> nat) \<Rightarrow> state \<Rightarrow> bool" where
  "wellFormed rk st =
     list_all
       (\<lambda>m. (case children (nodes st m) of
                None \<Rightarrow> True
              | Some cs \<Rightarrow>
                  distinct cs \<and>
                  list_all (\<lambda>c. c < next_id st \<and> rk c < rk m \<and> parent (nodes st c) = Some m) cs)
           \<and> (case parent (nodes st m) of
                None \<Rightarrow> True
              | Some q \<Rightarrow> q < next_id st \<and> m \<in> set (getChildren (nodes st q))))
       [0..<next_id st]"

text \<open>A set of nodes in use that contains the children of each of its members.\<close>

definition region :: "state \<Rightarrow> nat set \<Rightarrow> bool" where
  "region st R = (\<forall>m\<in>R. m < next_id st \<and> set (getChildren (nodes st m)) \<subseteq> R)"

text \<open>The nodes created between two states.\<close>

definition fresh :: "state \<Rightarrow> state \<Rightarrow> nat set" where
  "fresh st st' = {m. next_id st \<le> m \<and> m < next_id st'}"

text \<open>
  What a visit may do to the document, seen from a region \<open>R\<close> and a container \<open>q\<close> outside
  of it: the document stays well-formed under a ranking that agrees with the former one on
  the former nodes, no reference is reused, a former node outside of \<open>R\<close> other than \<open>q\<close>
  is unchanged, and \<open>R\<close> with the new nodes is a region again.
\<close>

definition evolves ::
  "(nat \<Rightarrow> nat) \<Rightarrow> state \<Rightarrow> nat set \<Rightarrow> nat option \<Rightarrow> (nat \<Rightarrow> nat) \<Rightarrow> state \<Rightarrow> bool" where
  "evolves rk st R q rk' st' =
     (wellFormed rk' st' \<and> (\<forall>m<next_id st. rk' m = rk m) \<and> next_id st \<le> next_id st'
      \<and> (\<forall>m<next_id st. m \<notin> R \<longrightarrow> Some m \<noteq> q \<longrightarrow> nodes st' m = nodes st m)
      \<and> region st' (R \<union> fresh st st'))"

text \<open>
  The outcome of visiting the node \<open>c\<close>: the document evolves as above, seen from the
  parent of \<open>c\<close>, and in the children of that parent \<open>c\<close> is still in its place or a new
  node has taken it.
\<close>

definition visitOk :: "(nat \<Rightarrow> nat) \<Rightarrow> state \<Rightarrow> nat set \<Rightarrow> nat \<Rightarrow> state \<Rightarrow> bool" where
  "visitOk rk st R c st' =
     (\<exists>rk' c'. evolves rk st R (parent (nodes st c)) rk' st'
        \<and> (c' = c \<or> (next_id st \<le> c' \<and> c' < next_id st'))
        \<and> (\<forall>p. parent (nodes st c) = Some p \<longrightarrow>
              nodes st' p = (nodes st p)\<lparr>children :=
                 map_option (map (\<lambda>x. if x = c then c' else x)) (children (nodes st p))\<rparr>))"

text \<open>
  The outcome of visiting the children \<open>xs\<close> of the container \<open>q\<close>, which come after the
  children \<open>pre\<close>: afterwards the children of \<open>q\<close> are \<open>pre\<close> followed by as many nodes as
  \<open>xs\<close> has.
\<close>

definition loopOk ::
  "(nat \<Rightarrow> nat) \<Rightarrow> state \<Rightarrow> nat set \<Rightarrow> nat \<Rightarrow> nat list \<Rightarrow> nat list \<Rightarrow> state \<Rightarrow> bool" where
  "loopOk rk st R q pre xs st' =
     (\<exists>rk' ys. evolves rk st R (Some q) rk' st'
        \<and> nodes st' q = (nodes st q)\<lparr>children := Some (pre @ ys)\<rparr>
        \<and> length ys = length xs \<and> set ys \<subseteq> R \<union> fresh st st')"

text \<open>
  The rectangle that \<^verbatim>\<open>processNode\<close> builds for the text node \<open>textNode\<close>, once inserted
  under \<open>p\<close> with the fills \<open>textColor\<close>.
\<close>

definition ghostOf :: "node \<Rightarrow> nat \<Rightarrow> paint list \<Rightarrow> node" where
  "ghostOf textNode p textColor =
     newRectangle\<lparr>name := ''Ghost_'' @ name textNode,
       width := width textNode, height := height textNode,
       node_x := node_x textNode, node_y := node_y textNode,
       cornerRadius := defaultCornerRadius, fills := Paints textColor,
       opacity := calculateOpacity textNode, parent := Some p\<rparr>"

text \<open>
  The node \<open>x\<close> of the document \<open>st\<close> has been converted in \<open>st'\<close>: if it was a text node
  whose font loads, then \<open>y\<close> is its ghost under \<open>q\<close> and \<open>x\<close> has no parent any more.
\<close>

definition converted :: "state \<Rightarrow> state \<Rightarrow> nat \<Rightarrow> nat \<Rightarrow> nat \<Rightarrow> bool" where
  "converted st st' q x y =
     (ntype (nodes st x) = TEXT \<and> fontAvailable (nodes st x) \<longrightarrow>
        (\<exists>tc. getTextColor (nodes st x) = Inr tc \<and> nodes st' y = ghostOf (nodes st x) q tc)
        \<and> parent (nodes st' x) = None)"

text \<open>The nodes below a node: the node itself and the children of the nodes below it.\<close>

inductive_set below :: "state \<Rightarrow> nat \<Rightarrow> nat set" for st :: state and c :: nat where
  below_self: "c \<in> below st c"
| below_child: "m \<in> below st c \<Longrightarrow> x \<in> set (getChildren (nodes st m)) \<Longrightarrow> x \<in> below st c"

text \<open>
  The ranking after a detach: the container has the rank of the instance, each clone the
  rank of the child it copies.
\<close>

definition detachRank :: "(nat \<Rightarrow> nat) \<Rightarrow> state \<Rightarrow> nat \<Rightarrow> nat \<Rightarrow> nat" where
  "detachRank rk st n m =
     (if m = next_id st then rk n
      else if next_id st < m \<and> m \<le> next_id st + length (getChildren (nodes st n))
      then rk (getChildren (nodes st n) ! (m - next_id st - 1))
      else rk m)"

section \<open>An example document\<close>

text \<open>
  A page with one card; the card holds a title, a text whose font cannot be loaded, and a
  button instance (a label and a background).
\<close>

definition blue :: paint where
  "blue = SOLID (RGB 0 0 1) 1"

definition red :: paint where
  "red = SOLID (RGB 1 0 0) 1"

definition exampleText :: "string \<Rightarrow> nat \<Rightarrow> bool \<Rightarrow> node" where
  "exampleText nm p avail =
     \<lparr>ntype = TEXT, name = nm, node_x = 10, node_y = 20, width = 120, height = 18,
      parent = Some p, children = None, fills = Paints [blue], opacity = 1,
      cornerRadius = 0, characters = nm, fontSize = SizeNum 12, segments = [Paints [blue]],
      fontAvailable = avail\<rparr>"

definition exampleContainer :: "node_type \<Rightarrow> string \<Rightarrow> nat option \<Rightarrow> nat list \<Rightarrow> node" where
  "exampleContainer ty nm p kids =
     \<lparr>ntype = ty, name = nm, node_x = 0, node_y = 0, width = 300, height = 200,
      parent = p, children = Some kids, fills = Paints [], opacity = 1,
      cornerRadius = 0, characters = [], fontSize = SizeMixed, segments = [],
      fontAvailable = True\<rparr>"

definition exampleDoc :: state where
  "exampleDoc =
     \<lparr>nodes = (\<lambda>_. newRectangle)
        (0 := exampleContainer FRAME ''Page'' None [1],
         1 := exampleContainer FRAME ''Card'' (Some 0) [2, 4, 3],
         2 := exampleText ''Title'' 1 True,
         3 := exampleContainer INSTANCE ''Button'' (Some 1) [5, 6],
         4 := exampleText ''Broken'' 1 False,
         5 := exampleText ''Label'' 3 True,
         6 := newRectangle\<lparr>name := ''Bg'', parent := Some 3\<rparr>),
      next_id = 7, selection = [1], console = [], notifications = [], closed = False\<rparr>"


text \<open>A ranking of the nodes of the example: the height of each node.\<close>

definition exampleRank :: "nat \<Rightarrow> nat" where
  "exampleRank m = (if m = 0 then 3 else if m = 1 then 2 else if m = 3 then 1 else 0)"

section \<open>Properties of the opacity\<close>

lemmas config_defs = defaultOpacity_def minOpacity_def maxOpacity_def defaultCornerRadius_def

lemma clamp_min_max: "lo \<le> hi \<Longrightarrow> clamp v lo hi = min hi (max lo v)"
  by (auto simp: clamp_def min_def max_def)

lemma calculateOpacity_factors:
  "calculateOpacity nd = min (max (0.2 * sizeFactor nd * lengthFactor nd) 0.1) 0.4"
  by (simp add: calculateOpacity_def sizeFactor_def lengthFactor_def Let_def config_defs)

lemma sizeFactor_bounds: "0.5 \<le> sizeFactor nd" "sizeFactor nd \<le> 1"
  by (simp_all add: sizeFactor_def)

lemma lengthFactor_bounds: "0.7 \<le> lengthFactor nd" "lengthFactor nd \<le> 1"
  by (simp_all add: lengthFactor_def)

lemma product_le_base: "0.2 * sizeFactor nd * lengthFactor nd \<le> 0.2"
proof -
  have "sizeFactor nd * lengthFactor nd \<le> 1 * 1"
    using sizeFactor_bounds [of nd] lengthFactor_bounds [of nd]
    by (intro mult_mono) simp_all
  then show ?thesis by simp
qed

lemma factors_mono:
  assumes "sizeFactor na \<le> sizeFactor nb" "lengthFactor na \<le> lengthFactor nb"
  shows "calculateOpacity na \<le> calculateOpacity nb"
proof -
  have "sizeFactor na * lengthFactor na \<le> sizeFactor nb * lengthFactor nb"
    using assms sizeFactor_bounds [of na] lengthFactor_bounds [of na] sizeFactor_bounds [of nb]
    by (intro mult_mono) simp_all
  then have "0.2 * sizeFactor na * lengthFactor na \<le> 0.2 * sizeFactor nb * lengthFactor nb"
    by simp
  then show ?thesis
    unfolding calculateOpacity_factors by (intro min.mono max.mono) simp_all
qed

text \<open>
  Claim C3. \<^verbatim>\<open>calculateOpacity\<close> equals the reference formula
  \<open>clamp (0.2 * clamp (fontSize / 24) 0.5 1.0 * clamp (characterCount / 50) 0.7 1.0) 0.1 0.4\<close>,
  a font size that is not a number counting as 14. For font size 24 and 50 characters the
  result is exactly 0.2; for font size 12 and 25 characters it is exactly 0.1, the floor.
\<close>

theorem calculateOpacity_reference:
  "calculateOpacity nd = opacity_spec (fontSize nd) (length (characters nd))
   \<and> (fontSize nd = SizeNum 24 \<and> length (characters nd) = 50 \<longrightarrow> calculateOpacity nd = 0.2)
   \<and> (fontSize nd = SizeNum 12 \<and> length (characters nd) = 25 \<longrightarrow> calculateOpacity nd = 0.1)"
proof (intro conjI impI)
  show "calculateOpacity nd = opacity_spec (fontSize nd) (length (characters nd))"
    by (simp add: calculateOpacity_def opacity_spec_def clamp_min_max Let_def config_defs
        min.commute max.commute)
next
  assume "fontSize nd = SizeNum 24 \<and> length (characters nd) = 50"
  then show "calculateOpacity nd = 0.2"
    by (simp add: calculateOpacity_def Let_def config_defs)
next
  assume "fontSize nd = SizeNum 12 \<and> length (characters nd) = 25"
  then show "calculateOpacity nd = 0.1"
    by (simp add: calculateOpacity_def Let_def config_defs)
qed

theorem calculateOpacity_reference_witness:
  "calculateOpacity (newRectangle\<lparr>fontSize := SizeNum 24, characters := replicate 50 CHR ''a''\<rparr>) = 0.2
   \<and> calculateOpacity (newRectangle\<lparr>fontSize := SizeNum 12, characters := replicate 25 CHR ''a''\<rparr>) = 0.1"
  using calculateOpacity_reference
          [of "newRectangle\<lparr>fontSize := SizeNum 24, characters := replicate 50 CHR ''a''\<rparr>"]
        calculateOpacity_reference
          [of "newRectangle\<lparr>fontSize := SizeNum 12, characters := replicate 25 CHR ''a''\<rparr>"]
  by simp

text \<open>
  Claim C4. The value returned by \<^verbatim>\<open>calculateOpacity\<close> lies in the closed interval
  from 0.1 to 0.4, for every font size and every number of characters (so for all
  non-negative ones, and for a text without characters); a font size that is not a number
  is treated as 14.
\<close>

theorem calculateOpacity_range:
  "0.1 \<le> calculateOpacity nd \<and> calculateOpacity nd \<le> 0.4
   \<and> calculateOpacity (nd\<lparr>fontSize := SizeMixed\<rparr>) = calculateOpacity (nd\<lparr>fontSize := SizeNum 14\<rparr>)"
  by (simp add: calculateOpacity_def Let_def config_defs)

text \<open>
  Claim C5. \<^verbatim>\<open>calculateOpacity\<close> is monotonic non-decreasing in the font size when the
  characters are fixed, and monotonic non-decreasing in the number of characters when the
  font size is fixed.
\<close>

theorem calculateOpacity_mono:
  "(f1 \<le> f2 \<longrightarrow>
      calculateOpacity (nd\<lparr>fontSize := SizeNum f1\<rparr>) \<le> calculateOpacity (nd\<lparr>fontSize := SizeNum f2\<rparr>))
   \<and> (length c1 \<le> length c2 \<longrightarrow>
      calculateOpacity (nd\<lparr>characters := c1\<rparr>) \<le> calculateOpacity (nd\<lparr>characters := c2\<rparr>))"
proof (intro conjI impI)
  assume "f1 \<le> f2"
  then show "calculateOpacity (nd\<lparr>fontSize := SizeNum f1\<rparr>)
      \<le> calculateOpacity (nd\<lparr>fontSize := SizeNum f2\<rparr>)"
    by (intro factors_mono)
       (simp_all add: sizeFactor_def lengthFactor_def max.coboundedI2 min.coboundedI2)
next
  assume "length c1 \<le> length c2"
  then show "calculateOpacity (nd\<lparr>characters := c1\<rparr>) \<le> calculateOpacity (nd\<lparr>characters := c2\<rparr>)"
    by (intro factors_mono)
       (simp_all add: sizeFactor_def lengthFactor_def max.coboundedI2 min.coboundedI2)
qed

theorem calculateOpacity_mono_witness:
  "(18::real) \<le> 30 \<and> length ''abc'' \<le> length ''abcdef''
   \<and> calculateOpacity (newRectangle\<lparr>fontSize := SizeNum 18\<rparr>)
       \<le> calculateOpacity (newRectangle\<lparr>fontSize := SizeNum 30\<rparr>)
   \<and> calculateOpacity (newRectangle\<lparr>characters := ''abc''\<rparr>)
       \<le> calculateOpacity (newRectangle\<lparr>characters := ''abcdef''\<rparr>)"
  using calculateOpacity_mono [of 18 30 newRectangle "''abc''" "''abcdef''"]
  by simp

text \<open>
  Claim C10. For every number of characters and every font size, numeric or not,
  \<^verbatim>\<open>calculateOpacity\<close> returns at most the base opacity 0.2: the result lies between 0.1
  and 0.2, and the ceiling 0.4 is never attained.
\<close>

theorem calculateOpacity_at_most_base:
  "0.1 \<le> calculateOpacity nd \<and> calculateOpacity nd \<le> 0.2 \<and> calculateOpacity nd < maxOpacity"
proof -
  have "max (0.2 * sizeFactor nd * lengthFactor nd) 0.1 \<le> 0.2"
    using product_le_base [of nd] by simp
  then have "calculateOpacity nd \<le> 0.2"
    unfolding calculateOpacity_factors by (simp add: min.coboundedI1)
  moreover have "0.1 \<le> calculateOpacity nd"
    unfolding calculateOpacity_factors by simp
  ultimately show ?thesis
    by (simp add: maxOpacity_def)
qed

section \<open>Properties of the colour extraction\<close>

lemma scanSegments_first:
  "\<forall>s\<in>set pre. \<not> nonEmptyArray s \<Longrightarrow> ps \<noteq> [] \<Longrightarrow>
   scanSegments (pre @ Paints ps # post) = Some ps"
  by (induction pre rule: scanSegments.induct) (simp_all add: nonEmptyArray_def)

lemma scanSegments_none:
  "\<forall>s\<in>set segs. \<not> nonEmptyArray s \<Longrightarrow> scanSegments segs = None"
  by (induction segs rule: scanSegments.induct) (simp_all add: nonEmptyArray_def)

lemma getTextColor_ok: "fontAvailable nd \<Longrightarrow> \<exists>tc. getTextColor nd = Inr tc"
  unfolding getTextColor_def by (simp split: option.split)

text \<open>
  Claim C6. On a text node whose font loads, the colour extraction returns: when the node
  has more than one styled segment, the fills of the first segment, in order, whose fills
  are a non-empty array; when it has at most one segment and a single fill of its own,
  exactly that one-element list; and when no usable fill is found anywhere, exactly one
  default fill, solid black with opacity 1.
\<close>

theorem getTextColor_cases:
  assumes "fontAvailable nd"
  shows "(1 < length (segments nd) \<and> segments nd = pre @ Paints ps # post \<and> ps \<noteq> []
            \<and> (\<forall>s\<in>set pre. \<not> nonEmptyArray s)
          \<longrightarrow> getTextColor nd = Inr ps)
       \<and> (length (segments nd) \<le> 1 \<and> fills nd = Paints [p] \<longrightarrow> getTextColor nd = Inr [p])
       \<and> ((length (segments nd) \<le> 1 \<or> (\<forall>s\<in>set (segments nd). \<not> nonEmptyArray s))
            \<and> \<not> nonEmptyArray (fills nd)
          \<longrightarrow> getTextColor nd = Inr [SOLID (RGB 0 0 0) 1])"
  using assms
  by (auto simp: getTextColor_def scanSegments_first scanSegments_none defaultFill_def
      nonEmptyArray_def split: fills.splits)

theorem getTextColor_cases_witness:
  "getTextColor (newRectangle\<lparr>segments := [Paints [], Paints [red]]\<rparr>) = Inr [red]
   \<and> getTextColor (newRectangle\<lparr>segments := [Paints [blue]], fills := Paints [blue]\<rparr>) = Inr [blue]
   \<and> getTextColor (newRectangle\<lparr>segments := [], fills := Paints []\<rparr>) = Inr [SOLID (RGB 0 0 0) 1]"
  using getTextColor_cases
          [of "newRectangle\<lparr>segments := [Paints [], Paints [red]]\<rparr>" "[Paints []]" "[red]" "[]" blue]
        getTextColor_cases
          [of "newRectangle\<lparr>segments := [Paints [blue]], fills := Paints [blue]\<rparr>" "[]" "[]" "[]" blue]
        getTextColor_cases
          [of "newRectangle\<lparr>segments := [], fills := Paints []\<rparr>" "[]" "[]" "[]" blue]
  by (simp add: newRectangle_def nonEmptyArray_def)

text \<open>
  Claim C7. When a text node has more than one styled segment and no segment has a
  non-empty array of fills, the colour extraction returns the node's own fills if they are
  a non-empty array, and only otherwise the default black fill.
\<close>

theorem getTextColor_fallback:
  assumes "fontAvailable nd" and "1 < length (segments nd)"
    and "\<forall>s\<in>set (segments nd). \<not> nonEmptyArray s"
  shows "getTextColor nd =
           Inr (case fills nd of
                  Paints ps \<Rightarrow> if ps \<noteq> [] then ps else [SOLID (RGB 0 0 0) 1]
                | Mixed \<Rightarrow> [SOLID (RGB 0 0 0) 1])"
  using assms
  by (auto simp: getTextColor_def scanSegments_none defaultFill_def split: fills.splits)

theorem getTextColor_fallback_witness:
  "getTextColor (newRectangle\<lparr>segments := [Paints [], Mixed], fills := Paints [red]\<rparr>) = Inr [red]"
  using getTextColor_fallback [of "newRectangle\<lparr>segments := [Paints [], Mixed], fills := Paints [red]\<rparr>"]
  by (simp add: newRectangle_def nonEmptyArray_def)

section \<open>Properties of the run\<close>

text \<open>
  Claim C9. When the current selection is empty, the run changes no node of the document
  and creates none, shows the guidance message asking to select something and no other
  message (so not the failure message), writes nothing to the console, and closes the
  plugin.
\<close>

theorem main_empty_selection:
  assumes "selection st = []"
  shows "main fuel st =
           Some (st\<lparr>notifications :=
                      notifications st @ [''Please select at least one frame or element''],
                    closed := True\<rparr>)"
  using assms by (simp add: main_def notify_def closePlugin_def)

theorem main_empty_selection_witness:
  "main 0 (exampleDoc\<lparr>selection := []\<rparr>) =
     Some (exampleDoc\<lparr>selection := [],
             notifications := [''Please select at least one frame or element''],
             closed := True\<rparr>)"
  using main_empty_selection [of "exampleDoc\<lparr>selection := []\<rparr>" 0]
  by (simp add: exampleDoc_def)

section \<open>Well-formed documents and what a visit changes\<close>

subsection \<open>Lists\<close>

text \<open>
  \<open>indexOf\<close> finds a member of a list; replacing one member of a duplicate-free list is a
  \<open>map\<close>.
\<close>

lemma indexOf_notin: "v \<notin> set xs \<Longrightarrow> indexOf xs v = - 1"
  by (induction xs) (auto simp: Let_def)

lemma indexOf_in:
  "v \<in> set xs \<Longrightarrow>
   0 \<le> indexOf xs v \<and> nat (indexOf xs v) < length xs \<and> xs ! nat (indexOf xs v) = v"
proof (induction xs)
  case Nil
  then show ?case by simp
next
  case (Cons a xs)
  show ?case
  proof (cases "a = v")
    case True
    then show ?thesis by simp
  next
    case False
    with Cons.prems have "v \<in> set xs" by simp
    from Cons.IH [OF this] False show ?thesis
      by (simp add: Let_def nat_add_distrib)
  qed
qed

lemma removeAll_insert_at:
  "distinct xs \<Longrightarrow> i < length xs \<Longrightarrow> g \<notin> set xs \<Longrightarrow>
   removeAll (xs ! i) (take i xs @ g # drop i xs) = xs[i := g]"
proof (induction xs arbitrary: i)
  case Nil
  then show ?case by simp
next
  case (Cons a xs)
  show ?case
  proof (cases i)
    case 0
    with Cons.prems show ?thesis by (auto simp: removeAll_id)
  next
    case (Suc j)
    with Cons.prems have "a \<noteq> xs ! j" by auto
    with Suc Cons.prems Cons.IH [of j] show ?thesis by auto
  qed
qed

subsection \<open>The invariant\<close>

text \<open>The invariant, read with quantifiers over the nodes in use.\<close>

lemma wellFormed_iff:
  "wellFormed rk st \<longleftrightarrow>
     (\<forall>m<next_id st.
        (\<forall>cs. children (nodes st m) = Some cs \<longrightarrow>
           distinct cs \<and> (\<forall>c\<in>set cs. c < next_id st \<and> rk c < rk m \<and> parent (nodes st c) = Some m))
      \<and> (\<forall>q. parent (nodes st m) = Some q \<longrightarrow>
           q < next_id st \<and> (\<exists>cs. children (nodes st q) = Some cs \<and> m \<in> set cs)))"
proof -
  have a: "\<And>nd m. (m \<in> set (getChildren nd)) = (\<exists>cs. children nd = Some cs \<and> m \<in> set cs)"
  proof -
    fix nd :: node and m
    show "(m \<in> set (getChildren nd)) = (\<exists>cs. children nd = Some cs \<and> m \<in> set cs)"
      by (cases "children nd") (simp_all add: getChildren_def)
  qed
  have b: "\<And>(x::nat list option) P. (case x of None \<Rightarrow> True | Some cs \<Rightarrow> P cs) = (\<forall>cs. x = Some cs \<longrightarrow> P cs)"
    by (simp split: option.split)
  have c: "\<And>(x::nat option) P. (case x of None \<Rightarrow> True | Some cs \<Rightarrow> P cs) = (\<forall>cs. x = Some cs \<longrightarrow> P cs)"
    by (simp split: option.split)
  show ?thesis
    unfolding wellFormed_def list_all_iff a b c by (simp add: Ball_def)
qed

lemma wf_children:
  assumes "wellFormed rk st" "m < next_id st" "children (nodes st m) = Some cs"
  shows "distinct cs" and "\<And>c. c \<in> set cs \<Longrightarrow> c < next_id st"
    and "\<And>c. c \<in> set cs \<Longrightarrow> rk c < rk m" and "\<And>c. c \<in> set cs \<Longrightarrow> parent (nodes st c) = Some m"
  using assms unfolding wellFormed_iff by blast+

lemma wf_parent:
  assumes "wellFormed rk st" "m < next_id st" "parent (nodes st m) = Some q"
  shows "q < next_id st" and "\<exists>cs. children (nodes st q) = Some cs \<and> m \<in> set cs"
  using assms unfolding wellFormed_iff by blast+

lemma wf_parent_rank:
  assumes "wellFormed rk st" "m < next_id st" "parent (nodes st m) = Some q"
  shows "rk m < rk q"
proof -
  from wf_parent [OF assms] obtain cs where "q < next_id st" "children (nodes st q) = Some cs" "m \<in> set cs"
    by blast
  with wf_children(3) [OF assms(1)] show ?thesis by blast
qed

lemma list_update_eq_map:
  "distinct xs \<Longrightarrow> i < length xs \<Longrightarrow> xs[i := g] = map (\<lambda>x. if x = xs ! i then g else x) xs"
  by (auto simp: list_eq_iff_nth_eq nth_list_update nth_eq_iff_index_eq)

lemma set_map_replace:
  "c \<in> set cs \<Longrightarrow> set (map (\<lambda>x. if x = c then g else x) cs) = insert g (set cs - {c})"
  by auto

lemma distinct_map_replace:
  "distinct cs \<Longrightarrow> g \<notin> set cs \<Longrightarrow> distinct (map (\<lambda>x. if x = c then g else x) cs)"
  by (auto simp: distinct_map inj_on_def)

text \<open>
  Two ways in which a document changes and stays well-formed: a child is replaced, in
  its place, by a new node without children; a new node without parent and children is
  added.
\<close>

lemma replace_by_leaf_wf:
  assumes wf: "wellFormed rk st" and c: "c < next_id st" and par: "parent (nodes st c) = Some p"
    and kids: "children (nodes st p) = Some cs"
    and nid: "next_id st' = Suc (next_id st)"
    and gN: "children (nodes st' (next_id st)) = None" "parent (nodes st' (next_id st)) = Some p"
    and gp: "nodes st' p = (nodes st p)\<lparr>children := Some (map (\<lambda>x. if x = c then next_id st else x) cs)\<rparr>"
    and gc: "nodes st' c = (nodes st c)\<lparr>parent := None\<rparr>"
    and other: "\<forall>m. m \<noteq> next_id st \<and> m \<noteq> p \<and> m \<noteq> c \<longrightarrow> nodes st' m = nodes st m"
  shows "wellFormed (rk(next_id st := 0)) st'"
proof -
  let ?N = "next_id st"
  let ?cs' = "map (\<lambda>x. if x = c then ?N else x) cs"
  let ?rk = "rk(?N := 0)"
  have p: "p < ?N" and cmem: "c \<in> set cs"
    using wf_parent [OF wf c par] kids by auto
  have rkc: "rk c < rk p" using wf_parent_rank [OF wf c par] .
  then have cp: "c \<noteq> p" by auto
  have csN: "\<And>x. x \<in> set cs \<Longrightarrow> x < ?N" using wf_children(2) [OF wf p kids] .
  then have Ncs: "?N \<notin> set cs" by auto
  have ch: "children (nodes st' m) = (if m = p then Some ?cs' else children (nodes st m))"
    if "m \<noteq> ?N" for m
  proof (cases "m = p")
    case True
    then show ?thesis by (simp add: gp)
  next
    case False
    show ?thesis
    proof (cases "m = c")
      case True
      then show ?thesis using False by (simp add: gc)
    next
      case mc: False
      with False that other show ?thesis by simp
    qed
  qed
  have pa: "parent (nodes st' m) = (if m = c then None else parent (nodes st m))"
    if "m \<noteq> ?N" for m
  proof (cases "m = p")
    case True
    then show ?thesis using cp by (simp add: gp)
  next
    case False
    show ?thesis
    proof (cases "m = c")
      case True
      then show ?thesis by (simp add: gc)
    next
      case mc: False
      with False that other show ?thesis by simp
    qed
  qed
  show ?thesis
    unfolding wellFormed_iff nid
  proof (intro allI impI conjI)
    fix m ds
    assume m: "m < Suc ?N" and d: "children (nodes st' m) = Some ds"
    from d gN have mN: "m \<noteq> ?N" by auto
    with m have mlt: "m < ?N" by simp
    show "distinct ds"
    proof (cases "m = p")
      case True
      with d ch [OF mN] have "ds = ?cs'" by simp
      then show ?thesis using distinct_map_replace [OF wf_children(1) [OF wf p kids] Ncs] by simp
    next
      case False
      with d ch [OF mN] have "children (nodes st m) = Some ds" by simp
      from wf_children(1) [OF wf mlt this] show ?thesis .
    qed
    show "\<forall>x\<in>set ds. x < Suc ?N \<and> ?rk x < ?rk m \<and> parent (nodes st' x) = Some m"
    proof
      fix x assume x: "x \<in> set ds"
      show "x < Suc ?N \<and> ?rk x < ?rk m \<and> parent (nodes st' x) = Some m"
      proof (cases "m = p")
        case True
        with d ch [OF mN] have "ds = ?cs'" by simp
        with x set_map_replace [OF cmem, of ?N] have "x = ?N \<or> (x \<in> set cs \<and> x \<noteq> c)" by auto
        then show ?thesis
        proof
          assume "x = ?N"
          then show ?thesis using True gN rkc p by simp
        next
          assume xx: "x \<in> set cs \<and> x \<noteq> c"
          then have "x < ?N" "rk x < rk p" "parent (nodes st x) = Some p"
            using wf_children [OF wf p kids] by auto
          then show ?thesis using True xx pa [of x] p by simp
        qed
      next
        case False
        with d ch [OF mN] have dm: "children (nodes st m) = Some ds" by simp
        have xs: "x < ?N" "rk x < rk m" "parent (nodes st x) = Some m"
          using wf_children [OF wf mlt dm] x by auto
        have "x \<noteq> c" using xs(3) par False by auto
        then show ?thesis using xs pa [of x] mlt by simp
      qed
    qed
  next
    fix m q
    assume m: "m < Suc ?N" and q: "parent (nodes st' m) = Some q"
    show "q < Suc ?N"
    proof (cases "m = ?N")
      case True
      with q gN p show ?thesis by simp
    next
      case False
      with q pa [OF False] have "parent (nodes st m) = Some q" by (simp split: if_splits)
      from wf_parent(1) [OF wf _ this] m False show ?thesis by simp
    qed
    show "\<exists>ds. children (nodes st' q) = Some ds \<and> m \<in> set ds"
    proof (cases "m = ?N")
      case True
      with q gN have "q = p" by simp
      then show ?thesis using ch [of p] p True cmem by auto
    next
      case False
      with q pa [OF False] have mc: "m \<noteq> c" and pm: "parent (nodes st m) = Some q"
        by (simp_all split: if_splits)
      from m False have mlt: "m < ?N" by simp
      from wf_parent [OF wf mlt pm] obtain ds where ds: "q < ?N" "children (nodes st q) = Some ds" "m \<in> set ds"
        by blast
      show ?thesis
      proof (cases "q = p")
        case True
        with ds kids have "m \<in> set cs" by simp
        with mc have "m \<in> set ?cs'" by auto
        then show ?thesis using True ch [of p] p by auto
      next
        case False
        then show ?thesis using ds ch [of q] by auto
      qed
    qed
  qed
qed

lemma add_orphan_wf:
  assumes wf: "wellFormed rk st"
    and nid: "next_id st' = Suc (next_id st)"
    and gN: "children (nodes st' (next_id st)) = None" "parent (nodes st' (next_id st)) = None"
    and other: "\<forall>m. m \<noteq> next_id st \<longrightarrow> nodes st' m = nodes st m"
  shows "wellFormed rk st'"
  unfolding wellFormed_iff nid
proof (intro allI impI conjI)
  fix m ds
  assume m: "m < Suc (next_id st)" and d: "children (nodes st' m) = Some ds"
  with gN have mN: "m \<noteq> next_id st" by auto
  with m d other have mlt: "m < next_id st" and dm: "children (nodes st m) = Some ds" by auto
  show "distinct ds" using wf_children(1) [OF wf mlt dm] .
  show "\<forall>x\<in>set ds. x < Suc (next_id st) \<and> rk x < rk m \<and> parent (nodes st' x) = Some m"
  proof
    fix x assume "x \<in> set ds"
    with wf_children [OF wf mlt dm] have "x < next_id st" "rk x < rk m" "parent (nodes st x) = Some m"
      by auto
    then show "x < Suc (next_id st) \<and> rk x < rk m \<and> parent (nodes st' x) = Some m"
      using other by auto
  qed
next
  fix m q
  assume m: "m < Suc (next_id st)" and q: "parent (nodes st' m) = Some q"
  with gN have mN: "m \<noteq> next_id st" by auto
  with m q other have mlt: "m < next_id st" and pm: "parent (nodes st m) = Some q" by auto
  from wf_parent [OF wf mlt pm] obtain ds where
    ds: "q < next_id st" "children (nodes st q) = Some ds" "m \<in> set ds" by blast
  then show "q < Suc (next_id st)" by simp
  from ds other show "\<exists>ds. children (nodes st' q) = Some ds \<and> m \<in> set ds" by auto
qed

subsection \<open>The results of the text branch\<close>

lemma convertText_success:
  assumes par: "parent (nodes st n) = Some p"
    and kids: "children (nodes st p) = Some cs"
    and mem: "n \<in> set cs" and dist: "distinct cs"
    and font: "fontAvailable (nodes st n)"
    and fr: "n < next_id st" "p < next_id st" "\<forall>c\<in>set cs. c < next_id st"
    and np: "n \<noteq> p"
  shows "\<exists>st' textColor. convertText st n = Inr st'
     \<and> getTextColor (nodes st n) = Inr textColor
     \<and> next_id st' = Suc (next_id st)
     \<and> nodes st' (next_id st) =
         newRectangle\<lparr>name := ''Ghost_'' @ name (nodes st n),
           width := width (nodes st n), height := height (nodes st n),
           node_x := node_x (nodes st n), node_y := node_y (nodes st n),
           cornerRadius := 4, fills := Paints textColor,
           opacity := calculateOpacity (nodes st n), parent := Some p\<rparr>
     \<and> nat (indexOf cs n) < length cs \<and> cs ! nat (indexOf cs n) = n
     \<and> nodes st' p = (nodes st p)\<lparr>children := Some (cs[nat (indexOf cs n) := next_id st])\<rparr>
     \<and> nodes st' n = (nodes st n)\<lparr>parent := None\<rparr>
     \<and> (\<forall>m. m \<noteq> next_id st \<and> m \<noteq> p \<and> m \<noteq> n \<longrightarrow> nodes st' m = nodes st m)
     \<and> console st' = console st"
proof -
  obtain textColor where tc: "getTextColor (nodes st n) = Inr textColor"
    using getTextColor_ok [OF font] by blast
  let ?i = "nat (indexOf cs n)"
  from indexOf_in [OF mem]
  have i: "0 \<le> indexOf cs n" "?i < length cs" "cs ! ?i = n" by simp_all
  have g: "next_id st \<notin> set cs" "next_id st \<noteq> n" "next_id st \<noteq> p"
    using fr by auto
  have rm: "removeAll n (take ?i cs @ next_id st # drop ?i cs) = cs[?i := next_id st]"
    using removeAll_insert_at [OF dist i(2) g(1)] i(3) by simp
  have le: "\<not> int (length cs) < indexOf cs n"
    using i by linarith
  show ?thesis
    using par kids tc i g np rm le
    by (simp add: convertText_def createRectangle_def resize_def modify_def insertChild_def
        remove_def Let_def newRectangle_def defaultCornerRadius_def)
qed

lemma convertText_failure:
  assumes "\<not> fontAvailable (nodes st n)" "n \<noteq> next_id st"
  shows "\<exists>s. convertText st n = Inl (FontLoadError, s)
     \<and> next_id s = Suc (next_id st)
     \<and> children (nodes s (next_id st)) = None \<and> parent (nodes s (next_id st)) = None
     \<and> (\<forall>m. m \<noteq> next_id st \<longrightarrow> nodes s m = nodes st m)
     \<and> console s = console st"
  using assms
  by (simp add: convertText_def createRectangle_def resize_def modify_def Let_def
      newRectangle_def getTextColor_def)

subsection \<open>Regions\<close>

lemma mem_getChildren:
  "x \<in> set (getChildren nd) \<longleftrightarrow> (\<exists>ds. children nd = Some ds \<and> x \<in> set ds)"
  by (cases "children nd") (simp_all add: getChildren_def)

lemma getChildren_parent_update [simp]: "getChildren (nd\<lparr>parent := q\<rparr>) = getChildren nd"
  by (simp add: getChildren_def)

lemma getChildren_None [simp]: "children nd = None \<Longrightarrow> getChildren nd = []"
  by (simp add: getChildren_def)

lemma getChildren_Some [simp]: "children nd = Some cs \<Longrightarrow> getChildren nd = cs"
  by (simp add: getChildren_def)

lemma regionD:
  assumes "region st R" "m \<in> R"
  shows "m < next_id st" and "\<And>x. x \<in> set (getChildren (nodes st m)) \<Longrightarrow> x \<in> R"
  using assms unfolding region_def by auto

lemma region_step:
  assumes reg: "region st R" and le: "next_id st \<le> next_id st'"
    and old: "\<And>m. m \<in> R \<Longrightarrow> set (getChildren (nodes st' m)) \<subseteq> set (getChildren (nodes st m)) \<union> F"
    and new: "\<And>m. m \<in> F \<Longrightarrow> m < next_id st' \<and> set (getChildren (nodes st' m)) \<subseteq> R \<union> F"
  shows "region st' (R \<union> F)"
  unfolding region_def
proof
  fix m assume "m \<in> R \<union> F"
  then show "m < next_id st' \<and> set (getChildren (nodes st' m)) \<subseteq> R \<union> F"
  proof
    assume m: "m \<in> R"
    from regionD(1) [OF reg m] le have "m < next_id st'" by simp
    moreover have "set (getChildren (nodes st' m)) \<subseteq> R \<union> F"
      using old [OF m] regionD(2) [OF reg m] by blast
    ultimately show ?thesis by simp
  next
    assume "m \<in> F"
    then show ?thesis using new by blast
  qed
qed

lemma fresh_Suc: "next_id st' = Suc (next_id st) \<Longrightarrow> fresh st st' = {next_id st}"
  by (auto simp: fresh_def)

lemma fresh_same: "next_id st' = next_id st \<Longrightarrow> fresh st st' = {}"
  by (auto simp: fresh_def)

lemma map_replace_id: "map (\<lambda>x. if x = c then c else x) cs = cs"
  by (induction cs) auto

subsection \<open>One step of each kind\<close>

text \<open>
  The text branch, on a node of a region whose parent is outside of the region, changes
  the region, that parent and new nodes only.
\<close>

lemma text_step:
  assumes wf: "wellFormed rk st" and c: "c < next_id st" and par: "parent (nodes st c) = Some p"
    and cR: "c \<in> R" and reg: "region st R" and pR: "p \<notin> R"
  shows "\<exists>s rk' c'. (convertText st c = Inr s \<or> (\<exists>e. convertText st c = Inl (e, s)))
      \<and> evolves rk st R (Some p) rk' s \<and> (c' = c \<or> (next_id st \<le> c' \<and> c' < next_id s))
      \<and> nodes s p = (nodes st p)\<lparr>children :=
           map_option (map (\<lambda>x. if x = c then c' else x)) (children (nodes st p))\<rparr>"
proof -
  let ?N = "next_id st"
  from wf_parent [OF wf c par] obtain cs where
    p: "p < ?N" and kids: "children (nodes st p) = Some cs" and mem: "c \<in> set cs" by blast
  have dist: "distinct cs" and csN: "\<forall>x\<in>set cs. x < ?N"
    using wf_children [OF wf p kids] by auto
  have cp: "c \<noteq> p" using wf_parent_rank [OF wf c par] by auto
  show ?thesis
  proof (cases "fontAvailable (nodes st c)")
    case True
    from convertText_success [OF par kids mem dist True c p csN cp] obtain s tc where
      s: "convertText st c = Inr s" "next_id s = Suc ?N"
        "nodes s ?N = newRectangle\<lparr>name := ''Ghost_'' @ name (nodes st c),
           width := width (nodes st c), height := height (nodes st c),
           node_x := node_x (nodes st c), node_y := node_y (nodes st c),
           cornerRadius := 4, fills := Paints tc,
           opacity := calculateOpacity (nodes st c), parent := Some p\<rparr>"
        "nat (indexOf cs c) < length cs" "cs ! nat (indexOf cs c) = c"
        "nodes s p = (nodes st p)\<lparr>children := Some (cs[nat (indexOf cs c) := ?N])\<rparr>"
        "nodes s c = (nodes st c)\<lparr>parent := None\<rparr>"
        "\<forall>m. m \<noteq> ?N \<and> m \<noteq> p \<and> m \<noteq> c \<longrightarrow> nodes s m = nodes st m"
      by blast
    have upd: "cs[nat (indexOf cs c) := ?N] = map (\<lambda>x. if x = c then ?N else x) cs"
      using list_update_eq_map [OF dist s(4), of ?N] s(5) by simp
    have gN: "children (nodes s ?N) = None" "parent (nodes s ?N) = Some p"
      by (simp_all add: s(3) newRectangle_def)
    have gp: "nodes s p = (nodes st p)\<lparr>children := Some (map (\<lambda>x. if x = c then ?N else x) cs)\<rparr>"
      using s(6) upd by simp
    have wf': "wellFormed (rk(?N := 0)) s"
      by (rule replace_by_leaf_wf [OF wf c par kids s(2) gN gp s(7) s(8)])
    have reg': "region s (R \<union> {?N})"
    proof (rule region_step [OF reg])
      show "?N \<le> next_id s" using s(2) by simp
    next
      fix m assume m: "m \<in> R"
      with pR have mp: "m \<noteq> p" by auto
      from regionD(1) [OF reg m] have mN: "m \<noteq> ?N" by auto
      show "set (getChildren (nodes s m)) \<subseteq> set (getChildren (nodes st m)) \<union> {?N}"
      proof (cases "m = c")
        case True
        then show ?thesis by (auto simp: s(7))
      next
        case False
        with mp mN s(8) show ?thesis by auto
      qed
    next
      fix m assume "m \<in> {?N}"
      then show "m < next_id s \<and> set (getChildren (nodes s m)) \<subseteq> R \<union> {?N}"
        using s(2) gN by simp
    qed
    have unch: "nodes s m = nodes st m" if "m < ?N" "m \<notin> R" "m \<noteq> p" for m
    proof -
      from that cR have "m \<noteq> ?N \<and> m \<noteq> p \<and> m \<noteq> c" by auto
      with s(8) show ?thesis by blast
    qed
    have ev: "evolves rk st R (Some p) (rk(?N := 0)) s"
      unfolding evolves_def fresh_Suc [OF s(2)]
      using wf' reg' s(2) unch by auto
    show ?thesis
      using s(1) ev gp kids s(2) by (intro exI [of _ s] exI [of _ "rk(?N := 0)"] exI [of _ ?N]) simp
  next
    case False
    have cN: "c \<noteq> ?N" using c by simp
    from convertText_failure [OF False cN] obtain s where
      s: "convertText st c = Inl (FontLoadError, s)" "next_id s = Suc ?N"
        "children (nodes s ?N) = None" "parent (nodes s ?N) = None"
        "\<forall>m. m \<noteq> ?N \<longrightarrow> nodes s m = nodes st m"
      by blast
    have wf': "wellFormed rk s"
      by (rule add_orphan_wf [OF wf s(2) s(3) s(4) s(5)])
    have reg': "region s (R \<union> {?N})"
    proof (rule region_step [OF reg])
      show "?N \<le> next_id s" using s(2) by simp
    next
      fix m assume m: "m \<in> R"
      from regionD(1) [OF reg m] have mN: "m \<noteq> ?N" by auto
      with s(5) show "set (getChildren (nodes s m)) \<subseteq> set (getChildren (nodes st m)) \<union> {?N}"
        by auto
    next
      fix m assume "m \<in> {?N}"
      then show "m < next_id s \<and> set (getChildren (nodes s m)) \<subseteq> R \<union> {?N}"
        using s(2) s(3) by simp
    qed
    have unch: "nodes s m = nodes st m" if "m < ?N" for m
      using that s(5) by auto
    have ev: "evolves rk st R (Some p) rk s"
      unfolding evolves_def fresh_Suc [OF s(2)]
      using wf' reg' s(2) unch by auto
    have "nodes s p = nodes st p" using s(5) p by auto
    then have "nodes s p = (nodes st p)\<lparr>children :=
           map_option (map (\<lambda>x. if x = c then c else x)) (children (nodes st p))\<rparr>"
      using kids by (simp add: map_replace_id)
    with s(1) ev show ?thesis by blast
  qed
qed

subsection \<open>Composing steps\<close>

lemma evolves_refl: "wellFormed rk st \<Longrightarrow> region st R \<Longrightarrow> evolves rk st R q rk st"
proof -
  have "fresh st st = {}" by (auto simp: fresh_def)
  then show "wellFormed rk st \<Longrightarrow> region st R \<Longrightarrow> evolves rk st R q rk st"
    by (simp add: evolves_def)
qed

lemma fresh_trans:
  "next_id st \<le> next_id st1 \<Longrightarrow> next_id st1 \<le> next_id st2 \<Longrightarrow>
   fresh st st1 \<union> fresh st1 st2 = fresh st st2"
  by (auto simp: fresh_def)

lemma evolves_trans:
  assumes a: "evolves rk st R q rk1 st1" and b: "evolves rk1 st1 (R \<union> fresh st st1) q rk2 st2"
  shows "evolves rk st R q rk2 st2"
proof -
  from a have a1: "\<forall>m<next_id st. rk1 m = rk m" "next_id st \<le> next_id st1"
    "\<forall>m<next_id st. m \<notin> R \<longrightarrow> Some m \<noteq> q \<longrightarrow> nodes st1 m = nodes st m"
    by (simp_all add: evolves_def)
  from b have b1: "wellFormed rk2 st2" "\<forall>m<next_id st1. rk2 m = rk1 m" "next_id st1 \<le> next_id st2"
    "\<forall>m<next_id st1. m \<notin> R \<union> fresh st st1 \<longrightarrow> Some m \<noteq> q \<longrightarrow> nodes st2 m = nodes st1 m"
    "region st2 (R \<union> fresh st st1 \<union> fresh st1 st2)"
    by (simp_all add: evolves_def)
  have fr: "R \<union> fresh st st1 \<union> fresh st1 st2 = R \<union> fresh st st2"
    using fresh_trans [OF a1(2) b1(3)] by auto
  have rk: "\<forall>m<next_id st. rk2 m = rk m"
    using a1(1,2) b1(2) by auto
  have un: "nodes st2 m = nodes st m" if "m < next_id st" "m \<notin> R" "Some m \<noteq> q" for m
  proof -
    from that a1(3) have "nodes st1 m = nodes st m" by blast
    moreover have "m < next_id st1" using that(1) a1(2) by simp
    moreover have "m \<notin> R \<union> fresh st st1" using that by (simp add: fresh_def)
    ultimately show ?thesis using b1(4) that(3) by auto
  qed
  have le: "next_id st \<le> next_id st2" using a1(2) b1(3) by simp
  have reg: "region st2 (R \<union> fresh st st2)" using b1(5) fr by simp
  show ?thesis
    unfolding evolves_def
  proof (intro conjI allI impI)
    show "wellFormed rk2 st2" by (rule b1(1))
    show "next_id st \<le> next_id st2" by (rule le)
    show "region st2 (R \<union> fresh st st2)" by (rule reg)
  next
    fix m assume "m < next_id st"
    with rk show "rk2 m = rk m" by blast
  next
    fix m assume "m < next_id st" "m \<notin> R" "Some m \<noteq> q"
    then show "nodes st2 m = nodes st m" by (rule un)
  qed
qed

lemma console_error_nodes [simp]: "nodes (console_error s msg e) = nodes s"
  by (simp add: console_error_def)

lemma console_error_next [simp]: "next_id (console_error s msg e) = next_id s"
  by (simp add: console_error_def)

lemma console_error_wf [simp]: "wellFormed rk (console_error s msg e) = wellFormed rk s"
  by (simp add: wellFormed_iff)

lemma console_error_region [simp]: "region (console_error s msg e) X = region s X"
  by (simp add: region_def)

lemma console_error_fresh [simp]: "fresh st (console_error s msg e) = fresh st s"
  by (simp add: fresh_def)

lemma evolves_console:
  "evolves rk st R q rk' s \<Longrightarrow> evolves rk st R q rk' (console_error s msg e)"
  by (simp add: evolves_def)

lemma region_insert:
  assumes "region st X" "m < next_id st" "set (getChildren (nodes st m)) \<subseteq> insert m X"
  shows "region st (insert m X)"
  using assms unfolding region_def by auto

lemma elemAt_map_indexOf:
  "c \<in> set cs \<Longrightarrow> elemAt (map f cs) (indexOf cs c) = Some (f c)"
proof -
  assume "c \<in> set cs"
  from indexOf_in [OF this]
  have i: "0 \<le> indexOf cs c" "nat (indexOf cs c) < length cs" "cs ! nat (indexOf cs c) = c"
    by simp_all
  then have "indexOf cs c < int (length cs)" by linarith
  with i show ?thesis by (simp add: elemAt_def)
qed

lemma map_replace_notin: "c \<notin> set cs \<Longrightarrow> map (\<lambda>x. if x = c then g else x) cs = cs"
  by (induction cs) auto

subsection \<open>The detach operation\<close>

text \<open>
  What the detach operation writes, and that it keeps a document well-formed: on a node of
  a region whose parent is outside of the region, it changes the region, that parent and
  new nodes only.
\<close>

lemma detachInstance_next:
  "next_id (detachInstance st n) = next_id st + 1 + length (getChildren (nodes st n))"
  unfolding detachInstance_def Let_def getChildren_def [symmetric] by simp

lemma detachInstance_console: "console (detachInstance st n) = console st"
  by (simp add: detachInstance_def Let_def)

lemma detachInstance_nodes:
  "nodes (detachInstance st n) m =
     (if m = next_id st then
        (nodes st n)\<lparr>ntype := FRAME,
          children := Some (map (\<lambda>j. next_id st + 1 + j) [0..<length (getChildren (nodes st n))])\<rparr>
      else if next_id st < m \<and> m \<le> next_id st + length (getChildren (nodes st n)) then
        (nodes st (getChildren (nodes st n) ! (m - next_id st - 1)))\<lparr>parent := Some (next_id st)\<rparr>
      else if m = n then (nodes st n)\<lparr>parent := None, children := Some []\<rparr>
      else if m \<in> set (getChildren (nodes st n)) then
        (nodes st m)\<lparr>parent := None, children := map_option (\<lambda>_. []) (children (nodes st m))\<rparr>
      else if parent (nodes st n) = Some m then
        (nodes st m)\<lparr>children :=
           map_option (map (\<lambda>c. if c = n then next_id st else c)) (children (nodes st m))\<rparr>
      else
        (case parent (nodes st m) of
           None \<Rightarrow> nodes st m
         | Some c \<Rightarrow>
             if c \<in> set (getChildren (nodes st n)) then
               (nodes st m)\<lparr>parent := Some (next_id st + 1 + nat (indexOf (getChildren (nodes st n)) c))\<rparr>
             else nodes st m))"
  unfolding detachInstance_def Let_def getChildren_def [symmetric] by simp

lemma indexOf_nth:
  assumes "distinct xs" "j < length xs"
  shows "nat (indexOf xs (xs ! j)) = j"
proof -
  have m: "xs ! j \<in> set xs" using assms(2) by simp
  from indexOf_in [OF m] have "nat (indexOf xs (xs ! j)) < length xs"
    "xs ! nat (indexOf xs (xs ! j)) = xs ! j" by simp_all
  with assms show ?thesis by (simp add: nth_eq_iff_index_eq)
qed

lemma detach_old:
  assumes wf: "wellFormed rk st" and n: "n < next_id st" and par: "parent (nodes st n) = Some p"
    and kids: "children (nodes st p) = Some cs" and m: "m < next_id st"
  shows "children (nodes (detachInstance st n) m) =
      (if m = n then Some []
       else if m \<in> set (getChildren (nodes st n)) then map_option (\<lambda>_. []) (children (nodes st m))
       else if m = p then Some (map (\<lambda>x. if x = n then next_id st else x) cs)
       else children (nodes st m))"
    and "parent (nodes (detachInstance st n) m) =
      (if m = n \<or> m \<in> set (getChildren (nodes st n)) then None
       else if m = p then parent (nodes st p)
       else (case parent (nodes st m) of
               None \<Rightarrow> None
             | Some c \<Rightarrow>
                 if c \<in> set (getChildren (nodes st n))
                 then Some (next_id st + 1 + nat (indexOf (getChildren (nodes st n)) c))
                 else Some c))"
  using m par kids
  by (auto simp: detachInstance_nodes split: option.split)

lemma detach_wf:
  assumes wf: "wellFormed rk st" and n: "n < next_id st" and par: "parent (nodes st n) = Some p"
  shows "wellFormed (detachRank rk st n) (detachInstance st n)"
proof -
  let ?N = "next_id st"
  let ?s = "detachInstance st n"
  let ?ks = "getChildren (nodes st n)"
  let ?L = "length ?ks"
  let ?rk = "detachRank rk st n"
  from wf_parent [OF wf n par] obtain cs where
    p: "p < ?N" and kids: "children (nodes st p) = Some cs" and mem: "n \<in> set cs" by blast
  let ?cs' = "map (\<lambda>x. if x = n then ?N else x) cs"
  have rkn: "rk n < rk p" using wf_parent_rank [OF wf n par] .
  then have np: "n \<noteq> p" by auto
  have csN: "\<And>x. x \<in> set cs \<Longrightarrow> x < ?N" using wf_children(2) [OF wf p kids] .
  then have Ncs: "?N \<notin> set cs" by auto
  have ksP: "distinct ?ks \<and> (\<forall>x\<in>set ?ks. x < ?N \<and> rk x < rk n \<and> parent (nodes st x) = Some n)"
  proof (cases "children (nodes st n)")
    case None
    then show ?thesis by simp
  next
    case (Some a)
    with wf_children [OF wf n Some] show ?thesis by auto
  qed
  have pks: "p \<notin> set ?ks" using ksP rkn by auto
  have nks: "n \<notin> set ?ks" using ksP by auto
  have nid: "next_id ?s = ?N + 1 + ?L" by (rule detachInstance_next)
  have recN: "children (nodes ?s ?N) = Some (map (\<lambda>j. ?N + 1 + j) [0..<?L])"
    "parent (nodes ?s ?N) = Some p"
    using par by (simp_all add: detachInstance_nodes)
  have reccl: "nodes ?s (?N + 1 + j) = (nodes st (?ks ! j))\<lparr>parent := Some ?N\<rparr>" if "j < ?L" for j
    using that by (simp add: detachInstance_nodes)
  note old = detach_old [OF wf n par kids]
  have rkN: "?rk ?N = rk n" by (simp add: detachRank_def)
  have rkcl: "?rk (?N + 1 + j) = rk (?ks ! j)" if "j < ?L" for j
    using that by (simp add: detachRank_def)
  have rkold: "?rk m = rk m" if "m < ?N" for m
    using that by (simp add: detachRank_def)
  have split3: "m = ?N \<or> (\<exists>j<?L. m = ?N + 1 + j) \<or> m < ?N" if "m < ?N + 1 + ?L" for m
  proof -
    have "m = ?N \<or> ?N < m \<or> m < ?N" by auto
    then show ?thesis
    proof (elim disjE)
      assume "?N < m"
      with that have "m - ?N - 1 < ?L" "m = ?N + 1 + (m - ?N - 1)" by auto
      then show ?thesis by blast
    qed auto
  qed
  have grand: "parent (nodes ?s x) = Some (?N + 1 + j)"
    if j: "j < ?L" and d: "children (nodes st (?ks ! j)) = Some ds" and x: "x \<in> set ds" for x j ds
  proof -
    have kj: "?ks ! j \<in> set ?ks" using j by simp
    then have kN: "?ks ! j < ?N" and kr: "rk (?ks ! j) < rk n" using ksP by auto
    have xs: "x < ?N" "rk x < rk (?ks ! j)" "parent (nodes st x) = Some (?ks ! j)"
      using wf_children [OF wf kN d] x by auto
    have "x \<noteq> n" using xs(2) kr by auto
    moreover have "x \<notin> set ?ks"
    proof
      assume "x \<in> set ?ks"
      with ksP have "parent (nodes st x) = Some n" by blast
      with xs(3) have "?ks ! j = n" by simp
      with kj nks show False by simp
    qed
    moreover have "x \<noteq> p" using xs(2) kr rkn by auto
    moreover have "nat (indexOf ?ks (?ks ! j)) = j" using indexOf_nth ksP j by blast
    ultimately show ?thesis using old(2) [OF xs(1)] xs(3) kj by simp
  qed
  show ?thesis
    unfolding wellFormed_iff nid
  proof (intro allI impI conjI)
    fix m ds
    assume m: "m < ?N + 1 + ?L" and d: "children (nodes ?s m) = Some ds"
    have "distinct ds \<and> (\<forall>x\<in>set ds. x < ?N + 1 + ?L \<and> ?rk x < ?rk m \<and> parent (nodes ?s x) = Some m)"
      using split3 [OF m]
    proof (elim disjE exE conjE)
      assume mN: "m = ?N"
      with d recN have ds: "ds = map (\<lambda>j. ?N + 1 + j) [0..<?L]" by simp
      have "distinct ds" unfolding ds by (simp add: distinct_map inj_on_def)
      moreover have "x < ?N + 1 + ?L \<and> ?rk x < ?rk m \<and> parent (nodes ?s x) = Some m"
        if "x \<in> set ds" for x
      proof -
        from that ds obtain j where j: "j < ?L" "x = ?N + 1 + j" by auto
        have "?ks ! j \<in> set ?ks" using j(1) by simp
        with ksP have "rk (?ks ! j) < rk n" by blast
        then show ?thesis using j mN rkN rkcl [OF j(1)] reccl [OF j(1)] by simp
      qed
      ultimately show ?thesis by blast
    next
      fix j assume j: "j < ?L" and mj: "m = ?N + 1 + j"
      from d mj reccl [OF j] have dk: "children (nodes st (?ks ! j)) = Some ds" by simp
      have kj: "?ks ! j \<in> set ?ks" using j by simp
      then have kN: "?ks ! j < ?N" using ksP by auto
      have "distinct ds" using wf_children(1) [OF wf kN dk] .
      moreover have "x < ?N + 1 + ?L \<and> ?rk x < ?rk m \<and> parent (nodes ?s x) = Some m"
        if x: "x \<in> set ds" for x
      proof -
        have xs: "x < ?N" "rk x < rk (?ks ! j)"
          using wf_children [OF wf kN dk] x by auto
        then show ?thesis using grand [OF j dk x] mj rkcl [OF j] rkold [of x] by simp
      qed
      ultimately show ?thesis by blast
    next
      assume mlt: "m < ?N"
      show ?thesis
      proof (cases "m = n \<or> m \<in> set ?ks")
        case True
        with d old(1) [OF mlt] have "ds = []" by (auto split: if_splits)
        then show ?thesis by simp
      next
        case False
        then have mn: "m \<noteq> n" and mk: "m \<notin> set ?ks" by auto
        show ?thesis
        proof (cases "m = p")
          case True
          with d old(1) [OF mlt] mn mk have ds: "ds = ?cs'" by simp
          have "distinct ds"
            unfolding ds using distinct_map_replace [OF wf_children(1) [OF wf p kids] Ncs] .
          moreover have "x < ?N + 1 + ?L \<and> ?rk x < ?rk m \<and> parent (nodes ?s x) = Some m"
            if x: "x \<in> set ds" for x
          proof -
            from x ds set_map_replace [OF mem, of ?N] have "x = ?N \<or> (x \<in> set cs \<and> x \<noteq> n)"
              by auto
            then show ?thesis
            proof
              assume "x = ?N"
              then show ?thesis using True recN rkN rkn rkold [OF p] by simp
            next
              assume xx: "x \<in> set cs \<and> x \<noteq> n"
              then have x3: "x < ?N" "rk x < rk p" "parent (nodes st x) = Some p"
                using wf_children [OF wf p kids] by auto
              have xk: "x \<notin> set ?ks" using x3(3) ksP np by auto
              have "parent (nodes ?s x) = Some p"
              proof (cases "x = p")
                case True
                with x3(2) show ?thesis by simp
              next
                case False
                with old(2) [OF x3(1)] xx xk x3(3) pks show ?thesis by simp
              qed
              then show ?thesis using True x3 rkold [OF x3(1)] rkold [OF p] by simp
            qed
          qed
          ultimately show ?thesis by blast
        next
          case mp: False
          with d old(1) [OF mlt] mn mk have dm: "children (nodes st m) = Some ds" by simp
          have "distinct ds" using wf_children(1) [OF wf mlt dm] .
          moreover have "x < ?N + 1 + ?L \<and> ?rk x < ?rk m \<and> parent (nodes ?s x) = Some m"
            if x: "x \<in> set ds" for x
          proof -
            have xs: "x < ?N" "rk x < rk m" "parent (nodes st x) = Some m"
              using wf_children [OF wf mlt dm] x by auto
            have xn: "x \<noteq> n" using xs(3) par mp by auto
            have xk: "x \<notin> set ?ks" using xs(3) ksP mn by auto
            have "parent (nodes ?s x) = Some m"
              using old(2) [OF xs(1)] xn xk xs(3) mk by auto
            then show ?thesis using xs rkold [OF xs(1)] rkold [OF mlt] by simp
          qed
          ultimately show ?thesis by blast
        qed
      qed
    qed
    then show "distinct ds"
      and "\<forall>x\<in>set ds. x < ?N + 1 + ?L \<and> ?rk x < ?rk m \<and> parent (nodes ?s x) = Some m"
      by blast+
  next
    fix m q
    assume m: "m < ?N + 1 + ?L" and q: "parent (nodes ?s m) = Some q"
    have "q < ?N + 1 + ?L \<and> (\<exists>ds. children (nodes ?s q) = Some ds \<and> m \<in> set ds)"
      using split3 [OF m]
    proof (elim disjE exE conjE)
      assume mN: "m = ?N"
      with q recN have "q = p" by simp
      then show ?thesis using old(1) [OF p] np pks p mN mem by auto
    next
      fix j assume j: "j < ?L" and mj: "m = ?N + 1 + j"
      with q reccl [OF j] have "q = ?N" by simp
      then show ?thesis using recN mj j by auto
    next
      assume mlt: "m < ?N"
      from q old(2) [OF mlt] have mn: "m \<noteq> n" and mk: "m \<notin> set ?ks"
        by (auto split: if_splits)
      show ?thesis
      proof (cases "m = p")
        case True
        with q old(2) [OF mlt] mn mk have pq: "parent (nodes st p) = Some q" by simp
        from wf_parent [OF wf p pq] obtain ds where
          ds: "q < ?N" "children (nodes st q) = Some ds" "p \<in> set ds" by blast
        have rq: "rk p < rk q" using wf_parent_rank [OF wf p pq] .
        have "q \<noteq> n" using rq rkn by auto
        moreover have "q \<notin> set ?ks" using ksP rq rkn by auto
        moreover have "q \<noteq> p" using rq by auto
        ultimately have "children (nodes ?s q) = Some ds" using old(1) [OF ds(1)] ds(2) by simp
        with ds True show ?thesis by auto
      next
        case mp: False
        from q old(2) [OF mlt] mn mk mp obtain c0 where
          c0: "parent (nodes st m) = Some c0"
          and qq: "q = (if c0 \<in> set ?ks then ?N + 1 + nat (indexOf ?ks c0) else c0)"
          by (auto split: option.splits if_splits)
        from wf_parent [OF wf mlt c0] obtain ds where
          ds: "c0 < ?N" "children (nodes st c0) = Some ds" "m \<in> set ds" by blast
        show ?thesis
        proof (cases "c0 \<in> set ?ks")
          case True
          from indexOf_in [OF True] have i: "nat (indexOf ?ks c0) < ?L"
            "?ks ! nat (indexOf ?ks c0) = c0" by simp_all
          have "children (nodes ?s q) = Some ds"
            using qq True reccl [OF i(1)] i(2) ds(2) by simp
          then show ?thesis using qq True i(1) ds(3) by auto
        next
          case False
          with qq have qc: "q = c0" by simp
          have "c0 \<noteq> n" using ds mk by (auto simp: mem_getChildren)
          show ?thesis
          proof (cases "c0 = p")
            case True
            with ds kids have "m \<in> set cs" by simp
            with mn have "m \<in> set ?cs'" by auto
            then show ?thesis using qc True old(1) [OF p] np pks p by auto
          next
            case cp: False
            have "children (nodes ?s c0) = Some ds"
              using old(1) [OF ds(1)] \<open>c0 \<noteq> n\<close> False cp ds(2) by simp
            then show ?thesis using qc ds by auto
          qed
        qed
      qed
    qed
    then show "q < ?N + 1 + ?L" and "\<exists>ds. children (nodes ?s q) = Some ds \<and> m \<in> set ds"
      by blast+
  qed
qed

lemma detach_fresh:
  "fresh st (detachInstance st c) =
     insert (next_id st) {m. next_id st < m \<and> m \<le> next_id st + length (getChildren (nodes st c))}"
  by (auto simp: fresh_def detachInstance_next)

lemma detach_step:
  assumes wf: "wellFormed rk st" and c: "c < next_id st" and par: "parent (nodes st c) = Some p"
    and cR: "c \<in> R" and reg: "region st R" and pR: "p \<notin> R"
  shows "evolves rk st R (Some p) (detachRank rk st c) (detachInstance st c)
     \<and> region (detachInstance st c)
          (R \<union> {m. next_id st < m \<and> m \<le> next_id st + length (getChildren (nodes st c))})
     \<and> nodes (detachInstance st c) p = (nodes st p)\<lparr>children :=
           map_option (map (\<lambda>x. if x = c then next_id st else x)) (children (nodes st p))\<rparr>"
proof -
  let ?N = "next_id st"
  let ?s = "detachInstance st c"
  let ?ks = "getChildren (nodes st c)"
  let ?L = "length ?ks"
  let ?C = "{m. ?N < m \<and> m \<le> ?N + ?L}"
  from wf_parent [OF wf c par] obtain cs where
    p: "p < ?N" and kids: "children (nodes st p) = Some cs" and mem: "c \<in> set cs" by blast
  have cp: "c \<noteq> p" using wf_parent_rank [OF wf c par] by auto
  have ksP: "\<forall>x\<in>set ?ks. x < ?N \<and> rk x < rk c \<and> parent (nodes st x) = Some c"
  proof (cases "children (nodes st c)")
    case None
    then show ?thesis by simp
  next
    case (Some a)
    with wf_children [OF wf c Some] show ?thesis by auto
  qed
  have pks: "p \<notin> set ?ks" using ksP wf_parent_rank [OF wf c par] by auto
  have nid: "next_id ?s = ?N + 1 + ?L" by (rule detachInstance_next)
  note old = detach_old [OF wf c par kids]
  have gp: "nodes ?s p = (nodes st p)\<lparr>children :=
           map_option (map (\<lambda>x. if x = c then ?N else x)) (children (nodes st p))\<rparr>"
    using p cp pks par by (simp add: detachInstance_nodes)
  have wf': "wellFormed (detachRank rk st c) ?s" by (rule detach_wf [OF wf c par])
  have ksR: "set ?ks \<subseteq> R" using regionD(2) [OF reg cR] by auto
  have chR: "set (getChildren (nodes ?s m)) \<subseteq> set (getChildren (nodes st m))" if m: "m \<in> R" for m
  proof -
    from regionD(1) [OF reg m] have mN: "m < ?N" .
    from m pR have mp: "m \<noteq> p" by auto
    show ?thesis
      using old(1) [OF mN] mp
      by (cases "children (nodes st m)") (auto simp: mem_getChildren split: if_splits)
  qed
  have chN: "set (getChildren (nodes ?s ?N)) \<subseteq> ?C"
    by (auto simp: detachInstance_nodes)
  have chC: "set (getChildren (nodes ?s m)) \<subseteq> R" if m: "m \<in> ?C" for m
  proof -
    from m have j: "m - ?N - 1 < ?L" and mm: "?N < m" "m \<le> ?N + ?L" by auto
    have "nodes ?s m = (nodes st (?ks ! (m - ?N - 1)))\<lparr>parent := Some ?N\<rparr>"
      using mm by (simp add: detachInstance_nodes)
    moreover have "?ks ! (m - ?N - 1) \<in> R" using ksR j by auto
    ultimately show ?thesis using regionD(2) [OF reg] by auto
  qed
  have regC: "region ?s (R \<union> ?C)"
  proof (rule region_step [OF reg])
    show "?N \<le> next_id ?s" using nid by simp
  next
    fix m assume "m \<in> R"
    from chR [OF this] show "set (getChildren (nodes ?s m)) \<subseteq> set (getChildren (nodes st m)) \<union> ?C"
      by auto
  next
    fix m assume m: "m \<in> ?C"
    with chC [OF m] nid show "m < next_id ?s \<and> set (getChildren (nodes ?s m)) \<subseteq> R \<union> ?C"
      by auto
  qed
  have fr: "fresh st ?s = insert ?N ?C" by (rule detach_fresh)
  have "region ?s (insert ?N (R \<union> ?C))"
  proof (rule region_insert [OF regC])
    show "?N < next_id ?s" using nid by simp
    show "set (getChildren (nodes ?s ?N)) \<subseteq> insert ?N (R \<union> ?C)" using chN by auto
  qed
  then have reg': "region ?s (R \<union> fresh st ?s)" using fr by simp
  have unch: "nodes ?s m = nodes st m" if m: "m < ?N" "m \<notin> R" "m \<noteq> p" for m
  proof -
    have mc: "m \<noteq> c" using m cR by auto
    have mk: "m \<notin> set ?ks" using m ksR by auto
    have "nodes st m = (case parent (nodes st m) of
           None \<Rightarrow> nodes st m
         | Some k \<Rightarrow>
             if k \<in> set ?ks then
               (nodes st m)\<lparr>parent := Some (?N + 1 + nat (indexOf ?ks k))\<rparr>
             else nodes st m)"
    proof (cases "parent (nodes st m)")
      case None
      then show ?thesis by simp
    next
      case (Some k)
      have "k \<notin> set ?ks"
      proof
        assume k: "k \<in> set ?ks"
        from wf_parent(2) [OF wf m(1) Some] have "m \<in> set (getChildren (nodes st k))"
          by (auto simp: mem_getChildren)
        with regionD(2) [OF reg] ksR k m(2) show False by blast
      qed
      with Some show ?thesis by simp
    qed
    then show ?thesis using m mc mk par by (simp add: detachInstance_nodes)
  qed
  have rk: "\<forall>m<?N. detachRank rk st c m = rk m" by (simp add: detachRank_def)
  have ev: "evolves rk st R (Some p) (detachRank rk st c) ?s"
    unfolding evolves_def
  proof (intro conjI allI impI)
    show "wellFormed (detachRank rk st c) ?s" by (rule wf')
    show "?N \<le> next_id ?s" using nid by simp
    show "region ?s (R \<union> fresh st ?s)" by (rule reg')
  next
    fix m assume "m < ?N"
    with rk show "detachRank rk st c m = rk m" by blast
  next
    fix m assume "m < ?N" "m \<notin> R" "Some m \<noteq> Some p"
    then show "nodes ?s m = nodes st m" using unch by simp
  qed
  from ev regC gp show ?thesis by blast
qed

lemma detach_frame:
  "nodes (detachInstance st c) (next_id st) =
     (nodes st c)\<lparr>ntype := FRAME,
        children := Some (map (\<lambda>j. next_id st + 1 + j) [0..<length (getChildren (nodes st c))])\<rparr>"
  by (simp add: detachInstance_nodes)



subsection \<open>The traversal, by induction on the depth bound\<close>

text \<open>
  If every visit with depth bound \<open>k\<close> is as \<open>visitOk\<close> says, then so is every loop over
  children with that bound; if every such loop is, then so is the block under \<^verbatim>\<open>try\<close>, and
  with it every visit with the bound \<open>Suc k\<close>.
\<close>

lemma loop_from_visit:
  assumes P: "\<And>rk st c R. \<lbrakk>wellFormed rk st; c < next_id st; rk c < k; c \<in> R; region st R;
                \<forall>p. parent (nodes st c) = Some p \<longrightarrow> p \<notin> R\<rbrakk>
              \<Longrightarrow> \<exists>st'. processNode k st c = Some (Inr st') \<and> visitOk rk st R c st'"
  shows "\<lbrakk>wellFormed rk st; q < next_id st; children (nodes st q) = Some (pre @ xs); q \<notin> R;
          set xs \<subseteq> R; region st R; \<forall>x\<in>set xs. rk x < k\<rbrakk>
         \<Longrightarrow> \<exists>st'. processAll k st xs = Some (Inr st') \<and> loopOk rk st R q pre xs st'"
proof (induction xs arbitrary: rk st pre R)
  case Nil
  have "loopOk rk st R q pre [] st"
    unfolding loopOk_def
    using evolves_refl [OF Nil.prems(1) Nil.prems(6)] Nil.prems(3)
    by (intro exI [of _ rk] exI [of _ "[]"]) (simp add: fresh_def)
  then show ?case by simp
next
  case (Cons x xs)
  note wf = Cons.prems(1) and q = Cons.prems(2) and kids = Cons.prems(3) and qR = Cons.prems(4)
    and reg = Cons.prems(6)
  from Cons.prems(5) have xR: "x \<in> R" and xsR: "set xs \<subseteq> R" by auto
  from Cons.prems(7) have xk: "rk x < k" and xsk: "\<forall>y\<in>set xs. rk y < k" by auto
  have dist: "distinct (pre @ x # xs)" using wf_children(1) [OF wf q kids] .
  have xq: "x < next_id st" "parent (nodes st x) = Some q"
    using wf_children(2,4) [OF wf q kids, of x] by auto
  have xsN: "\<forall>y\<in>set xs. y < next_id st"
    using wf_children(2) [OF wf q kids] by auto
  have pq: "\<forall>p. parent (nodes st x) = Some p \<longrightarrow> p \<notin> R" using xq qR by auto
  from P [OF wf xq(1) xk xR reg pq] obtain st1 where
    st1: "processNode k st x = Some (Inr st1)" and v: "visitOk rk st R x st1" by blast
  from v xq(2) obtain rk1 x' where
    ev1: "evolves rk st R (Some q) rk1 st1"
    and x': "x' = x \<or> (next_id st \<le> x' \<and> x' < next_id st1)"
    and q1: "nodes st1 q = (nodes st q)\<lparr>children :=
               map_option (map (\<lambda>y. if y = x then x' else y)) (children (nodes st q))\<rparr>"
    unfolding visitOk_def by auto
  have "map (\<lambda>y. if y = x then x' else y) (pre @ x # xs) = pre @ x' # xs"
    using dist by (simp add: map_replace_notin)
  with q1 kids have q1': "nodes st1 q = (nodes st q)\<lparr>children := Some ((pre @ [x']) @ xs)\<rparr>"
    by simp
  from ev1 have e1: "wellFormed rk1 st1" "\<forall>m<next_id st. rk1 m = rk m"
    "next_id st \<le> next_id st1" "region st1 (R \<union> fresh st st1)"
    by (simp_all add: evolves_def)
  let ?R1 = "R \<union> fresh st st1"
  have h2: "q < next_id st1" using q e1(3) by simp
  have h3: "children (nodes st1 q) = Some ((pre @ [x']) @ xs)" using q1' by simp
  have h4: "q \<notin> ?R1" using qR q by (simp add: fresh_def)
  have h5: "set xs \<subseteq> ?R1" using xsR by auto
  have h7: "\<forall>y\<in>set xs. rk1 y < k" using xsk xsN e1(2) by auto
  from Cons.IH [OF e1(1) h2 h3 h4 h5 e1(4) h7] obtain st2 where
    st2: "processAll k st1 xs = Some (Inr st2)" and l: "loopOk rk1 st1 ?R1 q (pre @ [x']) xs st2"
    by blast
  from l obtain rk2 ys where
    ev2: "evolves rk1 st1 ?R1 (Some q) rk2 st2"
    and q2: "nodes st2 q = (nodes st1 q)\<lparr>children := Some ((pre @ [x']) @ ys)\<rparr>"
    and len: "length ys = length xs" and ysR: "set ys \<subseteq> ?R1 \<union> fresh st1 st2"
    unfolding loopOk_def by blast
  have ev: "evolves rk st R (Some q) rk2 st2" by (rule evolves_trans [OF ev1 ev2])
  from ev2 have le2: "next_id st1 \<le> next_id st2" by (simp add: evolves_def)
  have fr: "?R1 \<union> fresh st1 st2 = R \<union> fresh st st2"
    using fresh_trans [OF e1(3) le2] by auto
  have x'R: "x' \<in> R \<union> fresh st st2"
    using x' xR le2 by (auto simp: fresh_def)
  have qf: "nodes st2 q = (nodes st q)\<lparr>children := Some (pre @ (x' # ys))\<rparr>"
    using q2 q1' by simp
  have "loopOk rk st R q pre (x # xs) st2"
    unfolding loopOk_def
    using ev qf len ysR fr x'R by (intro exI [of _ rk2] exI [of _ "x' # ys"]) auto
  moreover have "processAll k st (x # xs) = Some (Inr st2)"
    using st1 st2 by simp
  ultimately show ?case by blast
qed

declare tryBlock.simps [simp del]

lemma try_from_loop:
  assumes Q: "\<And>rk st q pre xs R. \<lbrakk>wellFormed rk st; q < next_id st;
                children (nodes st q) = Some (pre @ xs); q \<notin> R;
                set xs \<subseteq> R; region st R; \<forall>x\<in>set xs. rk x < k\<rbrakk>
              \<Longrightarrow> \<exists>st'. processAll k st xs = Some (Inr st') \<and> loopOk rk st R q pre xs st'"
    and wf: "wellFormed rk st" and c: "c < next_id st" and rkc: "rk c \<le> k"
    and cR: "c \<in> R" and reg: "region st R"
    and pR: "\<forall>p. parent (nodes st c) = Some p \<longrightarrow> p \<notin> R"
  shows "\<exists>s. (tryBlock k st c = Some (Inr s) \<or> (\<exists>e. tryBlock k st c = Some (Inl (e, s))))
           \<and> visitOk rk st R c s"
proof (cases "parent (nodes st c)")
  case None
  have "visitOk rk st R c st"
    unfolding visitOk_def using None evolves_refl [OF wf reg]
    by (intro exI [of _ rk] exI [of _ c]) simp
  moreover have "tryBlock k st c = Some (Inr st)"
    using None by (simp add: tryBlock.simps)
  ultimately show ?thesis by blast
next
  case (Some p)
  let ?N = "next_id st"
  from pR Some have pR': "p \<notin> R" by simp
  from wf_parent [OF wf c Some] obtain cs where
    p: "p < ?N" and kids: "children (nodes st p) = Some cs" and mem: "c \<in> set cs" by blast
  have cp: "c \<noteq> p" using wf_parent_rank [OF wf c Some] by auto
  show ?thesis
  proof (cases "ntype (nodes st c) = INSTANCE")
    case True
    let ?s1 = "detachInstance st c"
    let ?rk1 = "detachRank rk st c"
    let ?ks = "getChildren (nodes st c)"
    let ?L = "length ?ks"
    let ?cl = "map (\<lambda>j. ?N + 1 + j) [0..<?L]"
    let ?C = "{m. ?N < m \<and> m \<le> ?N + ?L}"
    let ?R1 = "R \<union> ?C"
    from detach_step [OF wf c Some cR reg pR'] have
      ev1: "evolves rk st R (Some p) ?rk1 ?s1" and reg1: "region ?s1 ?R1"
      and p1: "nodes ?s1 p = (nodes st p)\<lparr>children :=
           map_option (map (\<lambda>x. if x = c then ?N else x)) (children (nodes st p))\<rparr>"
      by simp_all
    have nid: "next_id ?s1 = ?N + 1 + ?L" by (rule detachInstance_next)
    have f1: "nodes ?s1 ?N = (nodes st c)\<lparr>ntype := FRAME, children := Some ?cl\<rparr>"
      by (rule detach_frame)
    from ev1 have wf1: "wellFormed ?rk1 ?s1" by (simp add: evolves_def)
    have ch1: "children (nodes ?s1 p) = Some (map (\<lambda>x. if x = c then ?N else x) cs)"
      using p1 kids by simp
    have el: "elemAt (map (\<lambda>x. if x = c then ?N else x) cs) (indexOf cs c) = Some ?N"
      using elemAt_map_indexOf [OF mem, of "\<lambda>x. if x = c then ?N else x"] by simp
    have gk: "getChildren (nodes ?s1 ?N) = ?cl" by (simp add: f1)
    have tb: "tryBlock k st c = processAll k ?s1 ?cl"
      using Some True kids ch1 el gk by (simp add: tryBlock.simps Let_def)
    have clR: "set ?cl \<subseteq> ?R1" by auto
    have ksk: "\<forall>x\<in>set ?cl. ?rk1 x < k"
    proof
      fix x assume "x \<in> set ?cl"
      then obtain j where j: "j < ?L" "x = ?N + 1 + j" by auto
      then have "?ks ! j \<in> set ?ks" by simp
      then obtain ds where ds: "children (nodes st c) = Some ds" "?ks ! j \<in> set ds"
        by (auto simp: mem_getChildren)
      from wf_children(3) [OF wf c ds(1) ds(2)] rkc j show "?rk1 x < k"
        by (simp add: detachRank_def)
    qed
    have NR: "?N \<notin> ?R1" using regionD(1) [OF reg] by auto
    have h3: "children (nodes ?s1 ?N) = Some ([] @ ?cl)" by (simp add: f1)
    have h2: "?N < next_id ?s1" using nid by simp
    from Q [OF wf1 h2 h3 NR clR reg1 ksk] obtain s2 where
      s2: "processAll k ?s1 ?cl = Some (Inr s2)" and l: "loopOk ?rk1 ?s1 ?R1 ?N [] ?cl s2"
      by blast
    from l obtain rk2 ys where
      ev2: "evolves ?rk1 ?s1 ?R1 (Some ?N) rk2 s2"
      and n2: "nodes s2 ?N = (nodes ?s1 ?N)\<lparr>children := Some ([] @ ys)\<rparr>"
      and ysR: "set ys \<subseteq> ?R1 \<union> fresh ?s1 s2"
      unfolding loopOk_def by blast
    from ev2 have e2: "wellFormed rk2 s2" "\<forall>m<next_id ?s1. rk2 m = ?rk1 m"
      "next_id ?s1 \<le> next_id s2"
      "\<forall>m<next_id ?s1. m \<notin> ?R1 \<longrightarrow> Some m \<noteq> Some ?N \<longrightarrow> nodes s2 m = nodes ?s1 m"
      "region s2 (?R1 \<union> fresh ?s1 s2)"
      by (simp_all add: evolves_def)
    from ev1 have e1: "\<forall>m<?N. m \<notin> R \<longrightarrow> Some m \<noteq> Some p \<longrightarrow> nodes ?s1 m = nodes st m"
      by (simp add: evolves_def)
    have fr: "R \<union> fresh st s2 = insert ?N (?R1 \<union> fresh ?s1 s2)"
      using nid e2(3) by (auto simp: fresh_def)
    have "region s2 (insert ?N (?R1 \<union> fresh ?s1 s2))"
    proof (rule region_insert [OF e2(5)])
      show "?N < next_id s2" using nid e2(3) by simp
      show "set (getChildren (nodes s2 ?N)) \<subseteq> insert ?N (?R1 \<union> fresh ?s1 s2)"
        using n2 ysR by auto
    qed
    then have reg2: "region s2 (R \<union> fresh st s2)" using fr by simp
    have ev: "evolves rk st R (Some p) rk2 s2"
      unfolding evolves_def
    proof (intro conjI allI impI)
      show "wellFormed rk2 s2" by (rule e2(1))
      show "?N \<le> next_id s2" using nid e2(3) by simp
      show "region s2 (R \<union> fresh st s2)" by (rule reg2)
    next
      fix m assume m: "m < ?N"
      then have "rk2 m = ?rk1 m" using e2(2) nid by simp
      with m show "rk2 m = rk m" by (simp add: detachRank_def)
    next
      fix m assume m: "m < ?N" "m \<notin> R" "Some m \<noteq> Some p"
      then have "nodes ?s1 m = nodes st m" using e1 by blast
      moreover have "nodes s2 m = nodes ?s1 m" using e2(4) m nid by simp
      ultimately show "nodes s2 m = nodes st m" by simp
    qed
    have "nodes s2 p = nodes ?s1 p" using e2(4) p pR' nid by simp
    with p1 have pf: "nodes s2 p = (nodes st p)\<lparr>children :=
           map_option (map (\<lambda>x. if x = c then ?N else x)) (children (nodes st p))\<rparr>"
      by simp
    have "visitOk rk st R c s2"
      unfolding visitOk_def using Some ev pf nid e2(3)
      by (intro exI [of _ rk2] exI [of _ ?N]) simp
    with tb s2 show ?thesis by auto
  next
    case notInst: False
    show ?thesis
    proof (cases "ntype (nodes st c) = TEXT")
      case True
      from text_step [OF wf c Some cR reg pR'] obtain s rk' c' where
        s: "convertText st c = Inr s \<or> (\<exists>e. convertText st c = Inl (e, s))"
        and ev: "evolves rk st R (Some p) rk' s"
        and c': "c' = c \<or> (?N \<le> c' \<and> c' < next_id s)"
        and pf: "nodes s p = (nodes st p)\<lparr>children :=
           map_option (map (\<lambda>x. if x = c then c' else x)) (children (nodes st p))\<rparr>"
        by blast
      have tb: "tryBlock k st c = Some (convertText st c)"
        using Some True by (simp add: tryBlock.simps)
      have "visitOk rk st R c s"
        unfolding visitOk_def using Some ev c' pf
        by (intro exI [of _ rk'] exI [of _ c']) simp
      with tb s show ?thesis by auto
    next
      case notText: False
      have tb: "tryBlock k st c = processAll k st (getChildren (nodes st c))"
        using Some notInst notText by (simp add: tryBlock.simps)
      have pid: "nodes st p = (nodes st p)\<lparr>children :=
           map_option (map (\<lambda>x. if x = c then c else x)) (children (nodes st p))\<rparr>"
        using kids by (simp add: map_replace_id)
      show ?thesis
      proof (cases "children (nodes st c)")
        case None
        have "visitOk rk st R c st"
          unfolding visitOk_def using Some evolves_refl [OF wf reg] pid
          by (intro exI [of _ rk] exI [of _ c]) simp
        moreover have "tryBlock k st c = Some (Inr st)"
          using tb None by simp
        ultimately show ?thesis by blast
      next
        case (Some ds)
        note dsc = Some
        let ?R' = "R - {c}"
        have dsP: "\<forall>x\<in>set ds. x < ?N \<and> rk x < rk c \<and> parent (nodes st x) = Some c"
          using wf_children [OF wf c dsc] by auto
        have regR': "region st ?R'"
          unfolding region_def
        proof
          fix m assume m: "m \<in> ?R'"
          then have mR: "m \<in> R" and mc: "m \<noteq> c" by auto
          have "c \<notin> set (getChildren (nodes st m))"
          proof
            assume "c \<in> set (getChildren (nodes st m))"
            then obtain es where es: "children (nodes st m) = Some es" "c \<in> set es"
              by (auto simp: mem_getChildren)
            from wf_children(4) [OF wf regionD(1) [OF reg mR] es(1) es(2)] \<open>parent (nodes st c) = Some p\<close>
            have "m = p" by simp
            with mR pR' show False by simp
          qed
          with regionD [OF reg mR]
          show "m < ?N \<and> set (getChildren (nodes st m)) \<subseteq> ?R'" by auto
        qed
        have h3: "children (nodes st c) = Some ([] @ ds)" using dsc by simp
        have h4: "c \<notin> ?R'" by simp
        have h5: "set ds \<subseteq> ?R'" using regionD(2) [OF reg cR] dsc dsP by auto
        have h7: "\<forall>x\<in>set ds. rk x < k" using dsP rkc by auto
        from Q [OF wf c h3 h4 h5 regR' h7] obtain s where
          s: "processAll k st ds = Some (Inr s)" and l: "loopOk rk st ?R' c [] ds s" by blast
        from l obtain rk' ys where
          ev': "evolves rk st ?R' (Some c) rk' s"
          and n': "nodes s c = (nodes st c)\<lparr>children := Some ([] @ ys)\<rparr>"
          and ysR: "set ys \<subseteq> ?R' \<union> fresh st s"
          unfolding loopOk_def by blast
        from ev' have e: "wellFormed rk' s" "\<forall>m<?N. rk' m = rk m" "?N \<le> next_id s"
          "\<forall>m<?N. m \<notin> ?R' \<longrightarrow> Some m \<noteq> Some c \<longrightarrow> nodes s m = nodes st m"
          "region s (?R' \<union> fresh st s)"
          by (simp_all add: evolves_def)
        have "region s (insert c (?R' \<union> fresh st s))"
        proof (rule region_insert [OF e(5)])
          show "c < next_id s" using c e(3) by simp
          show "set (getChildren (nodes s c)) \<subseteq> insert c (?R' \<union> fresh st s)"
            using n' ysR by auto
        qed
        moreover have "insert c (?R' \<union> fresh st s) = R \<union> fresh st s" using cR by auto
        ultimately have reg2: "region s (R \<union> fresh st s)" by simp
        have ev: "evolves rk st R (Some p) rk' s"
          unfolding evolves_def
        proof (intro conjI allI impI)
          show "wellFormed rk' s" by (rule e(1))
          show "?N \<le> next_id s" by (rule e(3))
          show "region s (R \<union> fresh st s)" by (rule reg2)
        next
          fix m assume "m < ?N"
          with e(2) show "rk' m = rk m" by blast
        next
          fix m assume m: "m < ?N" "m \<notin> R" "Some m \<noteq> Some p"
          with cR have "m \<notin> ?R'" "Some m \<noteq> Some c" by auto
          with e(4) m(1) show "nodes s m = nodes st m" by blast
        qed
        have "nodes s p = nodes st p" using e(4) p pR' cp by auto
        with pid have pf: "nodes s p = (nodes st p)\<lparr>children :=
           map_option (map (\<lambda>x. if x = c then c else x)) (children (nodes st p))\<rparr>"
          by simp
        have "visitOk rk st R c s"
          unfolding visitOk_def using \<open>parent (nodes st c) = Some p\<close> ev pf
          by (intro exI [of _ rk'] exI [of _ c]) simp
        moreover have "tryBlock k st c = Some (Inr s)"
          using tb dsc s by simp
        ultimately show ?thesis by blast
      qed
    qed
  qed
qed

lemma visitOk_console:
  "visitOk rk st R c s \<Longrightarrow> visitOk rk st R c (console_error s msg e)"
  unfolding visitOk_def using evolves_console by fastforce

lemma visit_all:
  "\<lbrakk>wellFormed rk st; c < next_id st; rk c < k; c \<in> R; region st R;
    \<forall>p. parent (nodes st c) = Some p \<longrightarrow> p \<notin> R\<rbrakk>
   \<Longrightarrow> \<exists>st'. processNode k st c = Some (Inr st') \<and> visitOk rk st R c st'"
proof (induction k arbitrary: rk st c R)
  case 0
  then show ?case by simp
next
  case (Suc k)
  have Q: "\<exists>st'. processAll k st xs = Some (Inr st') \<and> loopOk rk st R q pre xs st'"
    if "wellFormed rk st" "q < next_id st" "children (nodes st q) = Some (pre @ xs)" "q \<notin> R"
      "set xs \<subseteq> R" "region st R" "\<forall>x\<in>set xs. rk x < k"
    for rk st q pre xs R
    using loop_from_visit [of k rk st q pre xs R] Suc.IH that by blast
  from Suc.prems(3) have rkc: "rk c \<le> k" by simp
  from try_from_loop [OF Q Suc.prems(1,2) rkc Suc.prems(4,5,6)] obtain s where
    s: "tryBlock k st c = Some (Inr s) \<or> (\<exists>e. tryBlock k st c = Some (Inl (e, s)))"
    and v: "visitOk rk st R c s"
    by blast
  from s show ?case
  proof
    assume "tryBlock k st c = Some (Inr s)"
    then have "processNode (Suc k) st c = Some (Inr s)" by (simp add: catchError_def)
    with v show ?thesis by blast
  next
    assume "\<exists>e. tryBlock k st c = Some (Inl (e, s))"
    then obtain e where "tryBlock k st c = Some (Inl (e, s))" by blast
    then have "processNode (Suc k) st c =
        Some (Inr (console_error s (errorMessage (name (nodes s c))) e))"
      by (simp add: catchError_def)
    with visitOk_console [OF v] show ?thesis by blast
  qed
qed

lemma rank_region:
  assumes wf: "wellFormed rk st"
  shows "region st {m. m < next_id st \<and> rk m < b}"
  unfolding region_def
proof
  fix m assume "m \<in> {m. m < next_id st \<and> rk m < b}"
  then have m: "m < next_id st" "rk m < b" by auto
  have "x \<in> {m. m < next_id st \<and> rk m < b}" if "x \<in> set (getChildren (nodes st m))" for x
  proof -
    from that obtain ds where ds: "children (nodes st m) = Some ds" "x \<in> set ds"
      by (auto simp: mem_getChildren)
    from wf_children(2,3) [OF wf m(1) ds] m(2) show ?thesis by auto
  qed
  with m show "m < next_id st \<and> set (getChildren (nodes st m)) \<subseteq> {m. m < next_id st \<and> rk m < b}"
    by auto
qed

lemma processNode_returns:
  assumes wf: "wellFormed rk st" and c: "c < next_id st" and k: "rk c < k"
  shows "\<exists>st' rk'. processNode k st c = Some (Inr st') \<and> wellFormed rk' st'"
proof -
  let ?R = "{m. m < next_id st \<and> rk m < Suc (rk c)}"
  have "\<forall>p. parent (nodes st c) = Some p \<longrightarrow> p \<notin> ?R"
    using wf_parent_rank [OF wf c] by auto
  from visit_all [OF wf c k _ rank_region [OF wf] this] c
  obtain st' where "processNode k st c = Some (Inr st')" "visitOk rk st ?R c st'" by auto
  then show ?thesis unfolding visitOk_def evolves_def by blast
qed

lemma processAll_returns:
  assumes wf: "wellFormed rk st" and q: "q < next_id st"
    and kids: "children (nodes st q) = Some cs" and k: "rk q \<le> k"
  shows "\<exists>st' rk'. processAll k st cs = Some (Inr st') \<and> wellFormed rk' st'"
proof -
  let ?R = "{m. m < next_id st \<and> rk m < rk q}"
  have kids': "children (nodes st q) = Some ([] @ cs)" using kids by simp
  have "set cs \<subseteq> ?R" using wf_children(2,3) [OF wf q kids] by auto
  moreover have "\<forall>x\<in>set cs. rk x < k"
  proof
    fix x assume "x \<in> set cs"
    from wf_children(3) [OF wf q kids this] k show "rk x < k" by simp
  qed
  moreover have "q \<notin> ?R" by simp
  ultimately obtain st' where "processAll k st cs = Some (Inr st')" "loopOk rk st ?R q [] cs st'"
    using loop_from_visit [of k rk st q "[]" cs ?R] visit_all wf q kids' rank_region [OF wf]
    by blast
  then show ?thesis unfolding loopOk_def evolves_def by blast
qed

lemma processNode_no_throw: "processNode k st n \<noteq> Some (Inl t)"
proof (cases k)
  case 0
  then show ?thesis by simp
next
  case (Suc j)
  then show ?thesis
    by (simp add: catchError_def split: option.split sum.split prod.split)
qed

lemma processAll_no_throw: "processAll k st cs \<noteq> Some (Inl t)"
proof (induction cs arbitrary: st)
  case Nil
  then show ?case by simp
next
  case (Cons c cs)
  then show ?case
    using processNode_no_throw [of k st c]
    by (auto split: option.split sum.split)
qed

section \<open>Replacing a text node\<close>





section \<open>Errors stay inside the visit\<close>

text \<open>
  A thrown error leaves the console and the name of the visited node as they were.
\<close>

lemma convertText_throw:
  assumes "convertText st n = Inl (e, s)" "n \<noteq> next_id st"
  shows "name (nodes s n) = name (nodes st n) \<and> console s = console st"
  using assms
  by (auto simp: convertText_def createRectangle_def resize_def modify_def Let_def
      insertChild_def split: sum.splits option.splits if_splits)

lemma tryBlock_throw:
  assumes t: "tryBlock k st n = Some (Inl (e, s))" and n: "n < next_id st"
  shows "name (nodes s n) = name (nodes st n) \<and> console s = console st"
proof (cases "parent (nodes st n)")
  case None
  with t show ?thesis by (simp add: tryBlock.simps)
next
  case (Some p)
  show ?thesis
  proof (cases "ntype (nodes st n) = INSTANCE")
    case True
    have nm: "name (nodes (detachInstance st n) n) = name (nodes st n)"
      using n by (simp add: detachInstance_nodes)
    from t Some True show ?thesis
      using nm processAll_no_throw
      by (auto simp: tryBlock.simps Let_def detachInstance_console
          split: option.splits)
  next
    case False
    show ?thesis
    proof (cases "ntype (nodes st n) = TEXT")
      case True
      with t Some False have "convertText st n = Inl (e, s)" by (simp add: tryBlock.simps)
      from convertText_throw [OF this] n show ?thesis by simp
    next
      case nt: False
      with t Some False processAll_no_throw show ?thesis by (simp add: tryBlock.simps)
    qed
  qed
qed

text \<open>
  Claim C8. No call of \<^verbatim>\<open>processNode\<close>, and no loop over children, lets a thrown error
  reach its caller. When the block under \<^verbatim>\<open>try\<close> throws the error \<open>e\<close> in the document \<open>s\<close>,
  \<^verbatim>\<open>processNode\<close> returns normally with that document and one more console line, and the
  loop goes on with the remaining siblings. For a node \<open>n\<close> in use, that console line is
  the former console followed by one entry, which holds the message (the words
  \<^verbatim>\<open>Error processing node\<close>, the name of \<open>n\<close> between double quotes, a colon) and the
  error \<open>e\<close>. On a well-formed
  document, with a depth bound above the rank of the node, \<^verbatim>\<open>processNode\<close> returns, and so
  does the loop over the children of a container.
\<close>

theorem processNode_catches_errors:
  "processNode k st n \<noteq> Some (Inl t)
   \<and> processAll k st cs \<noteq> Some (Inl t)
   \<and> (tryBlock k st n = Some (Inl (e, s)) \<longrightarrow>
        processNode (Suc k) st n =
          Some (Inr (console_error s (errorMessage (name (nodes s n))) e))
        \<and> processAll (Suc k) st (n # cs) =
            processAll (Suc k) (console_error s (errorMessage (name (nodes s n))) e) cs)
   \<and> (tryBlock k st n = Some (Inl (e, s)) \<and> n < next_id st \<longrightarrow>
        (\<exists>st'. processNode (Suc k) st n = Some (Inr st')
           \<and> console st' = console st @
               [(''Error processing node '' @ [CHR 0x22] @ name (nodes st n) @ [CHR 0x22] @ '':'', e)]
           \<and> nodes st' = nodes s \<and> next_id st' = next_id s))
   \<and> (wellFormed rk st \<and> n < next_id st \<and> rk n < k \<longrightarrow>
        (\<exists>st'. processNode k st n = Some (Inr st')))
   \<and> (wellFormed rk st \<and> q < next_id st \<and> children (nodes st q) = Some cs \<and> rk q \<le> k \<longrightarrow>
        (\<exists>st'. processAll k st cs = Some (Inr st')))"
proof (intro conjI impI)
  show "processNode k st n \<noteq> Some (Inl t)" by (rule processNode_no_throw)
  show "processAll k st cs \<noteq> Some (Inl t)" by (rule processAll_no_throw)
next
  assume a: "tryBlock k st n = Some (Inl (e, s))"
  then show r: "processNode (Suc k) st n =
      Some (Inr (console_error s (errorMessage (name (nodes s n))) e))"
    by (simp add: catchError_def)
  show "processAll (Suc k) st (n # cs) =
      processAll (Suc k) (console_error s (errorMessage (name (nodes s n))) e) cs"
    using a by (simp add: catchError_def)
next
  assume a: "tryBlock k st n = Some (Inl (e, s)) \<and> n < next_id st"
  from tryBlock_throw [of k st n e s] a
  have u: "name (nodes s n) = name (nodes st n)" "console s = console st" by simp_all
  let ?st' = "console_error s (errorMessage (name (nodes s n))) e"
  have "processNode (Suc k) st n = Some (Inr ?st')"
    using a by (simp add: catchError_def)
  moreover have "console ?st' = console st @
      [(''Error processing node '' @ [CHR 0x22] @ name (nodes st n) @ [CHR 0x22] @ '':'', e)]"
    using u by (simp add: console_error_def errorMessage_def)
  moreover have "nodes ?st' = nodes s" "next_id ?st' = next_id s"
    by (simp_all add: console_error_def)
  ultimately show "\<exists>st'. processNode (Suc k) st n = Some (Inr st')
           \<and> console st' = console st @
               [(''Error processing node '' @ [CHR 0x22] @ name (nodes st n) @ [CHR 0x22] @ '':'', e)]
           \<and> nodes st' = nodes s \<and> next_id st' = next_id s"
    by blast
next
  assume "wellFormed rk st \<and> n < next_id st \<and> rk n < k"
  then show "\<exists>st'. processNode k st n = Some (Inr st')"
    using processNode_returns [of rk st n k] by blast
next
  assume "wellFormed rk st \<and> q < next_id st \<and> children (nodes st q) = Some cs \<and> rk q \<le> k"
  then show "\<exists>st'. processAll k st cs = Some (Inr st')"
    using processAll_returns [of rk st q cs k] by blast
qed

lemma upt7: "[0..<7] = [0, 1, 2, 3, 4, 5, 6]"
  by (simp add: upt_rec)

lemma exampleDoc_wellFormed: "wellFormed exampleRank exampleDoc"
  by (simp add: wellFormed_def exampleDoc_def upt7 exampleRank_def exampleContainer_def
      exampleText_def newRectangle_def getChildren_def)


text \<open>
  In the example, the visit of the text node 4 throws a font error; it is logged with the
  name \<open>Broken\<close>, and the loop over the children of the card goes on with the button.
\<close>

theorem processNode_catches_errors_witness:
  "(\<exists>s. tryBlock 0 exampleDoc 4 = Some (Inl (FontLoadError, s))
       \<and> processNode 1 exampleDoc 4 =
           Some (Inr (console_error s (errorMessage ''Broken'') FontLoadError))
       \<and> processAll 1 exampleDoc [4, 3] =
           processAll 1 (console_error s (errorMessage ''Broken'') FontLoadError) [3])
   \<and> (\<exists>st'. processNode 1 exampleDoc 4 = Some (Inr st')
         \<and> console st' =
             [(''Error processing node '' @ [CHR 0x22] @ ''Broken'' @ [CHR 0x22] @ '':'',
               FontLoadError)])
   \<and> wellFormed exampleRank exampleDoc
   \<and> (\<exists>st'. processNode 3 exampleDoc 1 = Some (Inr st'))
   \<and> (\<exists>st'. processAll 2 exampleDoc [2, 4, 3] = Some (Inr st'))"
proof -
  have f: "\<not> fontAvailable (nodes exampleDoc 4)" "4 \<noteq> next_id exampleDoc"
    by (simp_all add: exampleDoc_def exampleText_def)
  from convertText_failure [OF f] obtain s where
    s: "convertText exampleDoc 4 = Inl (FontLoadError, s)"
      "\<forall>m. m \<noteq> next_id exampleDoc \<longrightarrow> nodes s m = nodes exampleDoc m"
    by blast
  have tb: "tryBlock 0 exampleDoc 4 = Some (Inl (FontLoadError, s))"
    using s(1) by (simp add: tryBlock.simps exampleDoc_def exampleText_def)
  have nm: "name (nodes s 4) = ''Broken''"
    using s(2) by (simp add: exampleDoc_def exampleText_def)
  have h: "1 < next_id exampleDoc" "exampleRank 1 < 3"
    "children (nodes exampleDoc 1) = Some [2, 4, 3]" "exampleRank 1 \<le> 2"
    "4 < next_id exampleDoc" "name (nodes exampleDoc 4) = ''Broken''" "console exampleDoc = []"
    by (simp_all add: exampleDoc_def exampleRank_def exampleContainer_def exampleText_def)
  from processNode_catches_errors [of 0 exampleDoc 4 _ "[3]" FontLoadError s] tb nm
  have 1: "processNode 1 exampleDoc 4 =
           Some (Inr (console_error s (errorMessage ''Broken'') FontLoadError))"
    "processAll 1 exampleDoc [4, 3] =
           processAll 1 (console_error s (errorMessage ''Broken'') FontLoadError) [3]"
    by simp_all
  from processNode_catches_errors [of 0 exampleDoc 4 _ "[]" FontLoadError s] tb h(5)
  obtain st' where "processNode (Suc 0) exampleDoc 4 = Some (Inr st')"
    "console st' = console exampleDoc @
       [(''Error processing node '' @ [CHR 0x22] @ name (nodes exampleDoc 4) @ [CHR 0x22] @ '':'',
         FontLoadError)]"
    by blast
  then have 4: "\<exists>st'. processNode 1 exampleDoc 4 = Some (Inr st')
         \<and> console st' =
             [(''Error processing node '' @ [CHR 0x22] @ ''Broken'' @ [CHR 0x22] @ '':'',
               FontLoadError)]"
    using h(6,7) by auto
  from processNode_catches_errors [of 3 exampleDoc 1 _ "[]" _ _ exampleRank] exampleDoc_wellFormed h
  have 2: "\<exists>st'. processNode 3 exampleDoc 1 = Some (Inr st')" by blast
  from processNode_catches_errors [of 2 exampleDoc _ _ "[2, 4, 3]" _ _ exampleRank 1]
    exampleDoc_wellFormed h
  have 3: "\<exists>st'. processAll 2 exampleDoc [2, 4, 3] = Some (Inr st')" by blast
  from tb 1 2 3 4 exampleDoc_wellFormed show ?thesis by blast
qed

section \<open>Detaching an instance\<close>



















end
